theory Spec2Isabelle
  imports Main "HOL-Library.Word"
begin

unbundle bit_operations_syntax

section \<open>Constants of protocol.h\<close>

abbreviation MAX_PROTO_PACKET_LEN :: nat where "MAX_PROTO_PACKET_LEN \<equiv> 256"
abbreviation MAX_PROTO_CMD :: nat where "MAX_PROTO_CMD \<equiv> 10"
abbreviation MAX_PROTO_PARAM_COUNT :: nat where "MAX_PROTO_PARAM_COUNT \<equiv> 4"
abbreviation MAX_PROTO_PARAM_LEN :: nat where "MAX_PROTO_PARAM_LEN \<equiv> 50"

abbreviation ERR_PROTO_SUCCESS :: int where "ERR_PROTO_SUCCESS \<equiv> 0"
abbreviation ERR_PROTO_CP_MISSING_STX :: int where "ERR_PROTO_CP_MISSING_STX \<equiv> - 101"
abbreviation ERR_PROTO_CP_MISSING_ETX :: int where "ERR_PROTO_CP_MISSING_ETX \<equiv> - 102"
abbreviation ERR_PROTO_CP_MISSING_EFC :: int where "ERR_PROTO_CP_MISSING_EFC \<equiv> - 104"
abbreviation ERR_PROTO_CP_CMD_OVERFLOW :: int where "ERR_PROTO_CP_CMD_OVERFLOW \<equiv> - 105"
abbreviation ERR_PROTO_CP_CRC16_MISMATCH :: int where "ERR_PROTO_CP_CRC16_MISMATCH \<equiv> - 110"
abbreviation ERR_PROTO_CP_MISSING_CRC16 :: int where "ERR_PROTO_CP_MISSING_CRC16 \<equiv> - 111"
abbreviation ERR_PROTO_RB_TOO_MANY_PARAMS :: int where "ERR_PROTO_RB_TOO_MANY_PARAMS \<equiv> - 201"
abbreviation ERR_PROTO_RB_PARAM_OVERFLOW :: int where "ERR_PROTO_RB_PARAM_OVERFLOW \<equiv> - 202"

abbreviation PROTO_STX :: char where "PROTO_STX \<equiv> CHR ''[''"
abbreviation PROTO_ETX :: char where "PROTO_ETX \<equiv> CHR '']''"
abbreviation PROTO_PSC :: char where "PROTO_PSC \<equiv> CHR '':''"
abbreviation PROTO_CR :: char where "PROTO_CR \<equiv> CHR 0x0D"
abbreviation PROTO_NL :: char where "PROTO_NL \<equiv> CHR 0x0A"
abbreviation NUL :: char where "NUL \<equiv> CHR 0x00"

section \<open>CRC-16\<close>

definition CRC16_table :: "16 word list" where
  "CRC16_table = [
     0x0000, 0x1021, 0x2042, 0x3063, 0x4084, 0x50a5, 0x60c6, 0x70e7,
     0x8108, 0x9129, 0xa14a, 0xb16b, 0xc18c, 0xd1ad, 0xe1ce, 0xf1ef,
     0x1231, 0x0210, 0x3273, 0x2252, 0x52b5, 0x4294, 0x72f7, 0x62d6,
     0x9339, 0x8318, 0xb37b, 0xa35a, 0xd3bd, 0xc39c, 0xf3ff, 0xe3de,
     0x2462, 0x3443, 0x0420, 0x1401, 0x64e6, 0x74c7, 0x44a4, 0x5485,
     0xa56a, 0xb54b, 0x8528, 0x9509, 0xe5ee, 0xf5cf, 0xc5ac, 0xd58d,
     0x3653, 0x2672, 0x1611, 0x0630, 0x76d7, 0x66f6, 0x5695, 0x46b4,
     0xb75b, 0xa77a, 0x9719, 0x8738, 0xf7df, 0xe7fe, 0xd79d, 0xc7bc,
     0x48c4, 0x58e5, 0x6886, 0x78a7, 0x0840, 0x1861, 0x2802, 0x3823,
     0xc9cc, 0xd9ed, 0xe98e, 0xf9af, 0x8948, 0x9969, 0xa90a, 0xb92b,
     0x5af5, 0x4ad4, 0x7ab7, 0x6a96, 0x1a71, 0x0a50, 0x3a33, 0x2a12,
     0xdbfd, 0xcbdc, 0xfbbf, 0xeb9e, 0x9b79, 0x8b58, 0xbb3b, 0xab1a,
     0x6ca6, 0x7c87, 0x4ce4, 0x5cc5, 0x2c22, 0x3c03, 0x0c60, 0x1c41,
     0xedae, 0xfd8f, 0xcdec, 0xddcd, 0xad2a, 0xbd0b, 0x8d68, 0x9d49,
     0x7e97, 0x6eb6, 0x5ed5, 0x4ef4, 0x3e13, 0x2e32, 0x1e51, 0x0e70,
     0xff9f, 0xefbe, 0xdfdd, 0xcffc, 0xbf1b, 0xaf3a, 0x9f59, 0x8f78,
     0x9188, 0x81a9, 0xb1ca, 0xa1eb, 0xd10c, 0xc12d, 0xf14e, 0xe16f,
     0x1080, 0x00a1, 0x30c2, 0x20e3, 0x5004, 0x4025, 0x7046, 0x6067,
     0x83b9, 0x9398, 0xa3fb, 0xb3da, 0xc33d, 0xd31c, 0xe37f, 0xf35e,
     0x02b1, 0x1290, 0x22f3, 0x32d2, 0x4235, 0x5214, 0x6277, 0x7256,
     0xb5ea, 0xa5cb, 0x95a8, 0x8589, 0xf56e, 0xe54f, 0xd52c, 0xc50d,
     0x34e2, 0x24c3, 0x14a0, 0x0481, 0x7466, 0x6447, 0x5424, 0x4405,
     0xa7db, 0xb7fa, 0x8799, 0x97b8, 0xe75f, 0xf77e, 0xc71d, 0xd73c,
     0x26d3, 0x36f2, 0x0691, 0x16b0, 0x6657, 0x7676, 0x4615, 0x5634,
     0xd94c, 0xc96d, 0xf90e, 0xe92f, 0x99c8, 0x89e9, 0xb98a, 0xa9ab,
     0x5844, 0x4865, 0x7806, 0x6827, 0x18c0, 0x08e1, 0x3882, 0x28a3,
     0xcb7d, 0xdb5c, 0xeb3f, 0xfb1e, 0x8bf9, 0x9bd8, 0xabbb, 0xbb9a,
     0x4a75, 0x5a54, 0x6a37, 0x7a16, 0x0af1, 0x1ad0, 0x2ab3, 0x3a92,
     0xfd2e, 0xed0f, 0xdd6c, 0xcd4d, 0xbdaa, 0xad8b, 0x9de8, 0x8dc9,
     0x7c26, 0x6c07, 0x5c64, 0x4c45, 0x3ca2, 0x2c83, 0x1ce0, 0x0cc1,
     0xef1f, 0xff3e, 0xcf5d, 0xdf7c, 0xaf9b, 0xbfba, 0x8fd9, 0x9ff8,
     0x6e17, 0x7e36, 0x4e55, 0x5e74, 0x2e93, 0x3eb2, 0x0ed1, 0x1ef0]"

text \<open>
  \<^verbatim>\<open>return CRC16_table[((crc >> 8) ^ data) & 0xff] ^ (crc << 8);\<close> with the result
  converted back to 16 bits.
\<close>

definition crc16 :: "16 word \<Rightarrow> char \<Rightarrow> 16 word" where
  "crc16 crc data =
     (CRC16_table ! unat ((drop_bit 8 crc XOR of_char data) AND 0xff)) XOR push_bit 8 crc"

text \<open>
  \<^verbatim>\<open>for(int i=start; i<len; i++) crc = crc16(crc, data[i]);\<close> The result is \<open>None\<close>
  when the loop reads beyond the array it is given.
\<close>

definition crc16_buffer :: "16 word \<Rightarrow> char list \<Rightarrow> nat \<Rightarrow> nat \<Rightarrow> 16 word option" where
  "crc16_buffer crc data start len =
     (if len \<le> start \<or> len \<le> length data
      then Some (foldl crc16 crc (map (\<lambda>i. data ! i) [start..<len]))
      else None)"

section \<open>The packet\<close>

text \<open>
  \<^verbatim>\<open>struct packet_struct { char cmd[10]; char params[4][50]; uint8_t param_count; uint16_t crc16; }\<close>

  The decoder indexes \<^verbatim>\<open>cmd\<close> and the rows of \<^verbatim>\<open>params\<close> one place past their end, so
  the two character arrays are kept as the 210 adjacent bytes they occupy in the struct:
  \<^verbatim>\<open>cmd[i]\<close> is byte \<open>i\<close> and \<^verbatim>\<open>params[k][j]\<close> is byte \<open>10 + 50 * k + j\<close>. An access beyond
  byte 209 leaves the character arrays; its effect is not determined by the source and the
  model stops there with \<open>None\<close>.
\<close>

record proto_pkt_t =
  chars :: "char list"
  param_count :: "8 word"
  crc16_field :: "16 word"

abbreviation PKT_CHARS :: nat where
  "PKT_CHARS \<equiv> MAX_PROTO_CMD + MAX_PROTO_PARAM_COUNT * MAX_PROTO_PARAM_LEN"

definition cmd_offset :: "nat \<Rightarrow> nat" where
  "cmd_offset i = i"

definition param_offset :: "nat \<Rightarrow> nat \<Rightarrow> nat" where
  "param_offset k j = MAX_PROTO_CMD + k * MAX_PROTO_PARAM_LEN + j"

definition cmd :: "proto_pkt_t \<Rightarrow> char list" where
  "cmd p = take MAX_PROTO_CMD (chars p)"

definition params :: "proto_pkt_t \<Rightarrow> nat \<Rightarrow> char list" where
  "params p k = take MAX_PROTO_PARAM_LEN (drop (param_offset k 0) (chars p))"

definition pkt_wf :: "proto_pkt_t \<Rightarrow> bool" where
  "pkt_wf p \<longleftrightarrow> length (chars p) = PKT_CHARS"

text \<open>The bytes of a C string: everything before the first NUL.\<close>

definition c_str :: "char list \<Rightarrow> char list" where
  "c_str xs = takeWhile (\<lambda>c. c \<noteq> NUL) xs"

text \<open>
  Reading the C string that starts at byte \<open>a\<close> of the character arrays (\<^verbatim>\<open>strlen\<close> and
  the copy that follows it); \<open>None\<close> when no NUL ends it inside the arrays.
\<close>

definition c_string_at :: "proto_pkt_t \<Rightarrow> nat \<Rightarrow> char list option" where
  "c_string_at p a =
     (if NUL \<in> set (drop a (chars p)) then Some (c_str (drop a (chars p))) else None)"

definition poke :: "nat \<Rightarrow> char \<Rightarrow> proto_pkt_t \<Rightarrow> proto_pkt_t option" where
  "poke a v p = (if a < PKT_CHARS then Some (p\<lparr>chars := (chars p)[a := v]\<rparr>) else None)"

text \<open>
  \<^verbatim>\<open>memset(pkt->cmd, 0, 10); for(i<4) memset(pkt->params[i], 0, 50); param_count = 0; crc16 = 0;\<close>
\<close>

definition proto_clear_pkt :: "proto_pkt_t \<Rightarrow> proto_pkt_t" where
  "proto_clear_pkt p =
     p\<lparr>chars := replicate MAX_PROTO_CMD NUL
                 @ concat (replicate MAX_PROTO_PARAM_COUNT (replicate MAX_PROTO_PARAM_LEN NUL)),
       param_count := 0, crc16_field := 0\<rparr>"

section \<open>The decoder\<close>

text \<open>
  The decoder runs on the packet and records every access it makes to the packet's arrays
  and to the input buffer, in order.
\<close>

datatype access = CmdStore nat | ParamStore nat nat | BufRead nat

record machine =
  pkt :: proto_pkt_t
  accesses :: "access list"

text \<open>
  \<^verbatim>\<open>buffer[k]\<close>. The buffer is the array the caller passes, which may be longer than the
  \<^verbatim>\<open>len\<close> it passes with it; a read outside the array is \<open>None\<close>.
\<close>

definition rd :: "char list \<Rightarrow> nat \<Rightarrow> machine \<Rightarrow> (char \<times> machine) option" where
  "rd buffer k s =
     (if k < length buffer then Some (buffer ! k, s\<lparr>accesses := accesses s @ [BufRead k]\<rparr>)
      else None)"

text \<open>\<^verbatim>\<open>pkt->cmd[i] = v\<close>\<close>

definition store_cmd :: "nat \<Rightarrow> char \<Rightarrow> machine \<Rightarrow> machine option" where
  "store_cmd i v s =
     (case poke (cmd_offset i) v (pkt s) of
        None \<Rightarrow> None
      | Some p \<Rightarrow> Some \<lparr>pkt = p, accesses = accesses s @ [CmdStore i]\<rparr>)"

text \<open>\<^verbatim>\<open>pkt->params[k][j] = v\<close>\<close>

definition store_param :: "nat \<Rightarrow> nat \<Rightarrow> char \<Rightarrow> machine \<Rightarrow> machine option" where
  "store_param k j v s =
     (case poke (param_offset k j) v (pkt s) of
        None \<Rightarrow> None
      | Some p \<Rightarrow> Some \<lparr>pkt = p, accesses = accesses s @ [ParamStore k j]\<rparr>)"

text \<open>
  \<^verbatim>\<open>while(buffer[pbi++] != PROTO_STX && pbi < len) { si++; }\<close>
  The loop is entered with \<open>pbi < len\<close> and goes on only while \<open>pbi < len\<close>, so the 16-bit
  \<open>pbi\<close> does not wrap.
\<close>

function find_stx :: "char list \<Rightarrow> nat \<Rightarrow> nat \<Rightarrow> nat \<Rightarrow> machine \<Rightarrow> (nat \<times> nat \<times> machine) option" where
  "find_stx buffer len pbi si s =
     (case rd buffer pbi s of
        None \<Rightarrow> None
      | Some (c, s') \<Rightarrow>
          if c \<noteq> PROTO_STX \<and> pbi + 1 < len
          then find_stx buffer len (pbi + 1) (si + 1) s'
          else Some (pbi + 1, si, s'))"
  by pat_completeness auto
termination
  by (relation "measure (\<lambda>(buffer, len, pbi, si, s). len - pbi)") auto

declare find_stx.simps [simp del]

text \<open>
  \<^verbatim>\<open>while(pbi < len && i < MAX_PROTO_CMD && buffer[pbi] != PROTO_PSC && buffer[pbi] != PROTO_ETX)
    pkt->cmd[i++] = buffer[pbi++];\<close>
\<close>

function copy_cmd :: "char list \<Rightarrow> nat \<Rightarrow> nat \<Rightarrow> nat \<Rightarrow> machine \<Rightarrow> (nat \<times> nat \<times> machine) option" where
  "copy_cmd buffer len pbi i s =
     (if pbi < len \<and> i < MAX_PROTO_CMD then
        (case rd buffer pbi s of
           None \<Rightarrow> None
         | Some (c, s1) \<Rightarrow>
             if c \<noteq> PROTO_PSC \<and> c \<noteq> PROTO_ETX then
               (case store_cmd i c s1 of
                  None \<Rightarrow> None
                | Some s2 \<Rightarrow> copy_cmd buffer len (pbi + 1) (i + 1) s2)
             else Some (pbi, i, s1))
      else Some (pbi, i, s))"
  by pat_completeness auto
termination
  by (relation "measure (\<lambda>(buffer, len, pbi, i, s). len - pbi)") auto

declare copy_cmd.simps [simp del]

text \<open>
  \<^verbatim>\<open>while(pbi < len && pci < MAX_PROTO_PARAM_LEN && buffer[pbi] != PROTO_PSC && buffer[pbi] != PROTO_ETX)
    pkt->params[pkt->param_count][pci++] = buffer[pbi++];\<close>
\<close>

function copy_param :: "char list \<Rightarrow> nat \<Rightarrow> nat \<Rightarrow> nat \<Rightarrow> machine \<Rightarrow> (nat \<times> nat \<times> machine) option" where
  "copy_param buffer len pbi pci s =
     (if pbi < len \<and> pci < MAX_PROTO_PARAM_LEN then
        (case rd buffer pbi s of
           None \<Rightarrow> None
         | Some (c, s1) \<Rightarrow>
             if c \<noteq> PROTO_PSC \<and> c \<noteq> PROTO_ETX then
               (case store_param (unat (param_count (pkt s1))) pci c s1 of
                  None \<Rightarrow> None
                | Some s2 \<Rightarrow> copy_param buffer len (pbi + 1) (pci + 1) s2)
             else Some (pbi, pci, s1))
      else Some (pbi, pci, s))"
  by pat_completeness auto
termination
  by (relation "measure (\<lambda>(buffer, len, pbi, pci, s). len - pbi)") auto

declare copy_param.simps [simp del]

lemma copy_param_pbi_mono:
  "copy_param buffer len pbi pci s = Some (pbi', pci', s') \<Longrightarrow> pbi \<le> pbi'"
proof (induction buffer len pbi pci s rule: copy_param.induct)
  case (1 buffer len pbi pci s)
  show ?case
  proof (cases "pbi < len \<and> pci < MAX_PROTO_PARAM_LEN")
    case False
    with "1.prems" show ?thesis
      by (simp add: copy_param.simps)
  next
    case True
    with "1.prems" "1.IH" show ?thesis
      by (subst (asm) copy_param.simps)
         (fastforce split: if_splits option.splits prod.splits)
  qed
qed

text \<open>
  The parameter loop:
  \<^verbatim>\<open>do { pbi++; int pci = 0; <copy_param>; pkt->params[pkt->param_count][pci++] = 0x00;
       pkt->param_count++;
  } while(pbi < len && buffer[pbi] != PROTO_ETX && pkt->param_count < MAX_PROTO_PARAM_COUNT);\<close>
  It is entered with \<open>pbi < len\<close> and repeats only with \<open>pbi < len\<close>, so \<open>pbi + 1\<close> does not
  wrap; \<open>param_count\<close> is 8 bits wide and does.
\<close>

function parse_params :: "char list \<Rightarrow> nat \<Rightarrow> nat \<Rightarrow> machine \<Rightarrow> (nat \<times> machine) option" where
  "parse_params buffer len pbi s =
     (case copy_param buffer len (pbi + 1) 0 s of
        None \<Rightarrow> None
      | Some (pbi1, pci, s1) \<Rightarrow>
          (case store_param (unat (param_count (pkt s1))) pci NUL s1 of
             None \<Rightarrow> None
           | Some s2 \<Rightarrow>
               let s3 = s2\<lparr>pkt := (pkt s2)\<lparr>param_count := param_count (pkt s2) + 1\<rparr>\<rparr> in
               if pbi1 < len then
                 (case rd buffer pbi1 s3 of
                    None \<Rightarrow> None
                  | Some (c, s4) \<Rightarrow>
                      if c \<noteq> PROTO_ETX \<and> unat (param_count (pkt s4)) < MAX_PROTO_PARAM_COUNT
                      then parse_params buffer len pbi1 s4
                      else Some (pbi1, s4))
               else Some (pbi1, s3)))"
  by pat_completeness auto
termination
proof (relation "measure (\<lambda>(buffer, len, pbi, s). len - pbi)", goal_cases)
  case 1
  show ?case by simp
next
  case (2 buffer len pbi s r pbi1 r1 pci s1 s2 s3 r2 c s4)
  then have "copy_param buffer len (pbi + 1) 0 s = Some (pbi1, pci, s1)"
    by simp
  then have "pbi + 1 \<le> pbi1"
    by (rule copy_param_pbi_mono)
  with \<open>pbi1 < len\<close> show ?case
    by simp
qed

declare parse_params.simps [simp del]

text \<open>
  \<^verbatim>\<open>return pbi;\<close> converts the 16-bit unsigned \<open>pbi\<close> to the function's \<^verbatim>\<open>int16_t\<close> result.
\<close>

definition to_int16 :: "nat \<Rightarrow> int" where
  "to_int16 n =
     (if n mod 65536 < 32768 then int (n mod 65536) else int (n mod 65536) - 65536)"

subsection \<open>The checksum field (compiled only without DISABLE_CRC16)\<close>

text \<open>
  \<^verbatim>\<open>strtol(crc16Hex, &endPtr, 16)\<close> of the C library, on the four-byte array \<^verbatim>\<open>crc16Hex\<close>:
  white space, an optional sign, an optional \<^verbatim>\<open>0x\<close>, then hexadecimal digits up to the first
  byte that is none. The array is not NUL-terminated when four bytes were copied into it, so
  the scan is \<open>None\<close> when it finds no stopping byte inside the array. The result is the
  value and whether \<^verbatim>\<open>endPtr\<close> was moved.
\<close>

definition isspace :: "char \<Rightarrow> bool" where
  "isspace c \<longleftrightarrow> c \<in> set [CHR '' '', CHR 0x09, CHR 0x0A, CHR 0x0B, CHR 0x0C, CHR 0x0D]"

definition hex_val :: "char \<Rightarrow> nat option" where
  "hex_val c =
     (let n = (of_char c :: nat) in
      if 48 \<le> n \<and> n \<le> 57 then Some (n - 48)
      else if 65 \<le> n \<and> n \<le> 70 then Some (n - 55)
      else if 97 \<le> n \<and> n \<le> 102 then Some (n - 87)
      else None)"

fun strtol_digits :: "char list \<Rightarrow> nat \<Rightarrow> nat \<Rightarrow> (nat \<times> nat) option" where
  "strtol_digits [] acc n = None"
| "strtol_digits (c # cs) acc n =
     (case hex_val c of
        None \<Rightarrow> Some (acc, n)
      | Some d \<Rightarrow> strtol_digits cs (acc * 16 + d) (Suc n))"

definition strtol_prefix :: "char list \<Rightarrow> char list option" where
  "strtol_prefix zs =
     (case zs of
        [] \<Rightarrow> None
      | c0 # r0 \<Rightarrow>
          if c0 = CHR ''0'' then
            (case r0 of
               [] \<Rightarrow> None
             | x # r1 \<Rightarrow>
                 if x = CHR ''x'' \<or> x = CHR ''X'' then
                   (case r1 of
                      [] \<Rightarrow> None
                    | d # r2 \<Rightarrow> if hex_val d \<noteq> None then Some r1 else Some zs)
                 else Some zs)
          else Some zs)"

definition strtol16 :: "char list \<Rightarrow> (int \<times> bool) option" where
  "strtol16 xs =
     (case dropWhile isspace xs of
        [] \<Rightarrow> None
      | c # cs \<Rightarrow>
          let neg = (c = CHR ''-'');
              zs = (if c = CHR ''-'' \<or> c = CHR ''+'' then cs else c # cs)
          in case strtol_prefix zs of
               None \<Rightarrow> None
             | Some ds \<Rightarrow>
                 (case strtol_digits ds 0 0 of
                    None \<Rightarrow> None
                  | Some (v, n) \<Rightarrow> Some (if neg then - int v else int v, 0 < n)))"

text \<open>\<^verbatim>\<open>for(int i=0; i<4 && pbi<len; i++) crc16Hex[i] = buffer[pbi++];\<close>\<close>

function read_crc16Hex ::
  "char list \<Rightarrow> nat \<Rightarrow> nat \<Rightarrow> nat \<Rightarrow> char list \<Rightarrow> machine \<Rightarrow> (nat \<times> char list \<times> machine) option" where
  "read_crc16Hex buffer len i pbi crc16Hex s =
     (if i < 4 \<and> pbi < len then
        (case rd buffer pbi s of
           None \<Rightarrow> None
         | Some (c, s') \<Rightarrow> read_crc16Hex buffer len (i + 1) (pbi + 1) (crc16Hex[i := c]) s')
      else Some (pbi, crc16Hex, s))"
  by pat_completeness auto
termination
  by (relation "measure (\<lambda>(buffer, len, i, pbi, crc16Hex, s). 4 - i)") auto

declare read_crc16Hex.simps [simp del]

text \<open>
  \<^verbatim>\<open>pkt->crc16 = crc16_buffer(pkt->crc16, buffer, si, pbi);\<close> then the hexadecimal field is
  read and compared.
\<close>

definition check_crc16 ::
  "char list \<Rightarrow> nat \<Rightarrow> nat \<Rightarrow> nat \<Rightarrow> machine \<Rightarrow> (int \<times> proto_pkt_t \<times> access list) option" where
  "check_crc16 buffer len si pbi s =
     (case crc16_buffer (crc16_field (pkt s)) buffer si pbi of
        None \<Rightarrow> None
      | Some crc \<Rightarrow>
          let s1 = \<lparr>pkt = (pkt s)\<lparr>crc16_field := crc\<rparr>,
                    accesses = accesses s @ map BufRead [si..<pbi]\<rparr>
          in case read_crc16Hex buffer len 0 pbi (replicate 4 NUL) s1 of
               None \<Rightarrow> None
             | Some (pbi', crc16Hex, s2) \<Rightarrow>
                 (case strtol16 crc16Hex of
                    None \<Rightarrow> None
                  | Some (v, moved) \<Rightarrow>
                      let crc16In = (word_of_int v :: 16 word) in
                      if \<not> moved \<and> crc16In = 0 \<and> crc \<noteq> 0
                      then Some (ERR_PROTO_CP_MISSING_CRC16, pkt s2, accesses s2)
                      else if crc16In \<noteq> crc
                      then Some (ERR_PROTO_CP_CRC16_MISMATCH, pkt s2, accesses s2)
                      else Some (to_int16 pbi', pkt s2, accesses s2)))"

text \<open>
  \<^verbatim>\<open>if(buffer[pbi] == PROTO_ETX) pbi++;\<close> and what follows it. The read is not guarded by
  \<open>pbi < len\<close>.
\<close>

definition parse_finish ::
  "bool \<Rightarrow> char list \<Rightarrow> nat \<Rightarrow> nat \<Rightarrow> nat \<Rightarrow> machine \<Rightarrow> (int \<times> proto_pkt_t \<times> access list) option" where
  "parse_finish disable_crc16 buffer len si pbi s =
     (case rd buffer pbi s of
        None \<Rightarrow> None
      | Some (c, s1) \<Rightarrow>
          let pbi1 = (if c = PROTO_ETX then (pbi + 1) mod 65536 else pbi) in
          if disable_crc16 then Some (to_int16 pbi1, pkt s1, accesses s1)
          else check_crc16 buffer len si pbi1 s1)"

text \<open>
  \<^verbatim>\<open>int16_t proto_parse_pkt_buffer(char* buffer, uint16_t len, proto_pkt_t* pkt)\<close>.
  \<open>disable_crc16\<close> says whether the build defines \<^verbatim>\<open>DISABLE_CRC16\<close> (protocol.h does).
  The result is the value returned, the packet and the accesses made; \<open>None\<close> when the run
  leaves the arrays.
\<close>

definition parse_body ::
  "bool \<Rightarrow> char list \<Rightarrow> nat \<Rightarrow> nat \<Rightarrow> nat \<Rightarrow> nat \<Rightarrow> machine \<Rightarrow> (int \<times> proto_pkt_t \<times> access list) option" where
  "parse_body disable_crc16 buffer len si pbi i s =
     (if pbi \<ge> len then Some (ERR_PROTO_CP_MISSING_EFC, pkt s, accesses s)
      else if i \<ge> MAX_PROTO_CMD then Some (ERR_PROTO_CP_CMD_OVERFLOW, pkt s, accesses s)
      else
        (case rd buffer pbi s of
           None \<Rightarrow> None
         | Some (c, s1) \<Rightarrow>
             if c = PROTO_ETX then parse_finish disable_crc16 buffer len si pbi s1
             else if c = PROTO_PSC then
               (case parse_params buffer len pbi s1 of
                  None \<Rightarrow> None
                | Some (pbi1, s2) \<Rightarrow> parse_finish disable_crc16 buffer len si pbi1 s2)
             else parse_finish disable_crc16 buffer len si pbi s1))"

definition proto_parse_pkt_buffer ::
  "bool \<Rightarrow> char list \<Rightarrow> 16 word \<Rightarrow> proto_pkt_t \<Rightarrow> (int \<times> proto_pkt_t \<times> access list) option" where
  "proto_parse_pkt_buffer disable_crc16 buffer len p =
     (if unat len \<le> 0 then Some (0, p, [])
      else
        (case find_stx buffer (unat len) 0 0 \<lparr>pkt = p\<lparr>crc16_field := 0\<rparr>, accesses = []\<rparr> of
           None \<Rightarrow> None
         | Some (pbi, si, s1) \<Rightarrow>
             if pbi \<ge> unat len then Some (ERR_PROTO_CP_MISSING_STX, pkt s1, accesses s1)
             else
               (case copy_cmd buffer (unat len) pbi 0 s1 of
                  None \<Rightarrow> None
                | Some (pbi1, i, s2) \<Rightarrow>
                    (case store_cmd i NUL s2 of
                       None \<Rightarrow> None
                     | Some s3 \<Rightarrow> parse_body disable_crc16 buffer (unat len) si pbi1 i s3))))"

section \<open>The response builder\<close>

text \<open>
  Library routines the response builder calls. \<^verbatim>\<open>Serial.print(n, HEX)\<close> of the Arduino core
  writes the digits of \<open>n\<close> in base 16, upper case, most significant first, without padding;
  \<^verbatim>\<open>sprintf(dst, "%d", n)\<close> writes the decimal digits with a leading minus sign for a
  negative \<open>n\<close>, and a NUL.
\<close>

definition digit_char :: "nat \<Rightarrow> char" where
  "digit_char d = (if d < 10 then char_of (48 + d) else char_of (55 + d))"

fun print_number :: "nat \<Rightarrow> nat \<Rightarrow> char list" where
  "print_number base n =
     (if n < base \<or> base < 2 then [digit_char n]
      else print_number base (n div base) @ [digit_char (n mod base)])"

declare print_number.simps [simp del]

definition print_hex :: "nat \<Rightarrow> char list" where
  "print_hex n = print_number 16 n"

definition sprintf_d :: "int \<Rightarrow> char list" where
  "sprintf_d n = (if n < 0 then CHR ''-'' # print_number 10 (nat (- n)) else print_number 10 (nat n))"

text \<open>Writing the bytes \<open>bs\<close> into the character arrays from byte \<open>a\<close> on.\<close>

definition write_bytes :: "nat \<Rightarrow> char list \<Rightarrow> char list \<Rightarrow> char list" where
  "write_bytes a bs mem = take a mem @ bs @ drop (a + length bs) mem"

text \<open>
  \<^verbatim>\<open>strlcpy(dst, src, n)\<close>: at most \<open>n - 1\<close> bytes of the string \<open>src\<close>, then a NUL.
\<close>

definition strlcpy :: "nat \<Rightarrow> char list \<Rightarrow> nat \<Rightarrow> proto_pkt_t \<Rightarrow> proto_pkt_t" where
  "strlcpy dst src n p = p\<lparr>chars := write_bytes dst (take (n - 1) src @ [NUL]) (chars p)\<rparr>"

text \<open>
  \<^verbatim>\<open>if(pkt_rsp->param_count+1 > MAX_PROTO_PARAM_COUNT) return ERR_PROTO_RB_TOO_MANY_PARAMS;
  if(strlen(param) > MAX_PROTO_PARAM_LEN) return ERR_PROTO_RB_PARAM_OVERFLOW;
  strlcpy(pkt_rsp->params[pkt_rsp->param_count++], param, MAX_PROTO_PARAM_LEN);
  return pkt_rsp->param_count;\<close>
  The argument \<open>param\<close> holds the bytes at the pointer; the string is what precedes the
  first NUL.
\<close>

definition proto_append_response_pkt_param :: "proto_pkt_t \<Rightarrow> char list \<Rightarrow> int \<times> proto_pkt_t" where
  "proto_append_response_pkt_param pkt_rsp param =
     (if unat (param_count pkt_rsp) + 1 > MAX_PROTO_PARAM_COUNT
      then (ERR_PROTO_RB_TOO_MANY_PARAMS, pkt_rsp)
      else if length (c_str param) > MAX_PROTO_PARAM_LEN
      then (ERR_PROTO_RB_PARAM_OVERFLOW, pkt_rsp)
      else
        let p1 = strlcpy (param_offset (unat (param_count pkt_rsp)) 0) (c_str param)
                   MAX_PROTO_PARAM_LEN pkt_rsp;
            p2 = p1\<lparr>param_count := param_count p1 + 1\<rparr>
        in (int (unat (param_count p2)), p2))"

text \<open>
  \<^verbatim>\<open>if(pkt_rsp->param_count <= 0) pkt_rsp->param_count = 1;
  sprintf(pkt_rsp->params[0], "%d", error_code);\<close>
\<close>

definition proto_set_response_pkt_error_code :: "proto_pkt_t \<Rightarrow> int \<Rightarrow> proto_pkt_t" where
  "proto_set_response_pkt_error_code pkt_rsp error_code =
     (let p1 = (if unat (param_count pkt_rsp) \<le> 0 then pkt_rsp\<lparr>param_count := 1\<rparr> else pkt_rsp)
      in p1\<lparr>chars := write_bytes (param_offset 0 0) (sprintf_d error_code @ [NUL]) (chars p1)\<rparr>)"

text \<open>
  \<^verbatim>\<open>proto_clear_pkt(pkt_rsp); strlcpy(pkt_rsp->cmd, pkt_cmd->cmd, MAX_PROTO_CMD);
  proto_set_response_pkt_error_code(pkt_rsp, ERR_PROTO_SUCCESS);\<close>
\<close>

definition proto_init_response_pkt :: "proto_pkt_t \<Rightarrow> proto_pkt_t \<Rightarrow> proto_pkt_t option" where
  "proto_init_response_pkt pkt_rsp pkt_cmd =
     (case c_string_at pkt_cmd (cmd_offset 0) of
        None \<Rightarrow> None
      | Some name \<Rightarrow>
          Some (proto_set_response_pkt_error_code
                  (strlcpy (cmd_offset 0) name MAX_PROTO_CMD (proto_clear_pkt pkt_rsp))
                  ERR_PROTO_SUCCESS))"

text \<open>
  The parameter loop of \<^verbatim>\<open>proto_print_response_pkt\<close>:
  \<^verbatim>\<open>do { Serial.write(PROTO_PSC); crc = crc16(crc, PROTO_PSC);
       Serial.write(params[i], strlen(params[i])); crc = crc16_buffer(crc, params[i], 0, strlen(params[i]));
       i++; } while(i < pkt_rsp->param_count);\<close>
  The state is the bytes written so far and the running checksum.
\<close>

function print_params :: "proto_pkt_t \<Rightarrow> nat \<Rightarrow> char list \<times> 16 word \<Rightarrow> (char list \<times> 16 word) option" where
  "print_params p i (out, crc) =
     (case c_string_at p (param_offset i 0) of
        None \<Rightarrow> None
      | Some v \<Rightarrow>
          let out' = out @ [PROTO_PSC] @ v;
              crc' = foldl crc16 (crc16 crc PROTO_PSC) v
          in if i + 1 < unat (param_count p) then print_params p (i + 1) (out', crc')
             else Some (out', crc'))"
  by pat_completeness auto
termination
  by (relation "measure (\<lambda>(p, i, r). unat (param_count p) - i)") auto

declare print_params.simps [simp del]

text \<open>
  \<^verbatim>\<open>void proto_print_response_pkt(proto_pkt_t* pkt_rsp)\<close>: the bytes written to the serial
  port and the packet with its checksum field updated. No part of it depends on
  \<^verbatim>\<open>DISABLE_CRC16\<close>.
\<close>

definition proto_print_response_pkt :: "proto_pkt_t \<Rightarrow> (char list \<times> proto_pkt_t) option" where
  "proto_print_response_pkt pkt_rsp =
     (case c_string_at pkt_rsp (cmd_offset 0) of
        None \<Rightarrow> None
      | Some name \<Rightarrow>
          (case (if 0 < unat (param_count pkt_rsp)
                 then print_params pkt_rsp 0 ([PROTO_STX] @ name, foldl crc16 (crc16 0 PROTO_STX) name)
                 else Some ([PROTO_STX] @ name, foldl crc16 (crc16 0 PROTO_STX) name)) of
             None \<Rightarrow> None
           | Some (out, crc) \<Rightarrow>
               let crc' = crc16 crc PROTO_ETX
               in Some (out @ [PROTO_ETX] @ print_hex (unat crc') @ [PROTO_CR],
                        pkt_rsp\<lparr>crc16_field := crc'\<rparr>)))"

section \<open>The input accumulator of main.cpp\<close>

abbreviation MAX_INPUT_BUFFER_LEN :: nat where "MAX_INPUT_BUFFER_LEN \<equiv> MAX_PROTO_PACKET_LEN"

record app_state =
  cib_len :: nat
  char_in_buffer :: "char list"
  pkt_response :: proto_pkt_t
  serial_out :: "char list"

text \<open>
  \<^verbatim>\<open>proto_init_response_pkt(&pkt_response, pkt_received);
  proto_set_response_pkt_error_code(&pkt_response, error_code);
  proto_print_response_pkt(&pkt_response);\<close>
\<close>

definition respond_error :: "proto_pkt_t \<Rightarrow> int \<Rightarrow> app_state \<Rightarrow> app_state option" where
  "respond_error pkt_received error_code st =
     (case proto_init_response_pkt (pkt_response st) pkt_received of
        None \<Rightarrow> None
      | Some r1 \<Rightarrow>
          (case proto_print_response_pkt (proto_set_response_pkt_error_code r1 error_code) of
             None \<Rightarrow> None
           | Some (out, r2) \<Rightarrow> Some (st\<lparr>pkt_response := r2, serial_out := serial_out st @ out\<rparr>)))"

text \<open>
  The loop \<^verbatim>\<open>while(Serial.available() > 0)\<close> of \<^verbatim>\<open>proc_input\<close> over the bytes the serial
  port has for it. It yields \<open>Some error_code\<close> when the loop is left by \<^verbatim>\<open>return error_code\<close>,
  with the bytes not yet read.
\<close>

fun proc_input_loop ::
  "bool \<Rightarrow> char list \<Rightarrow> proto_pkt_t \<Rightarrow> app_state \<Rightarrow> (int option \<times> char list \<times> proto_pkt_t \<times> app_state) option" where
  "proc_input_loop disable_crc16 [] pkt_received st = Some (None, [], pkt_received, st)"
| "proc_input_loop disable_crc16 (ich # rest) pkt_received st =
     (let st1 = (if cib_len st < MAX_INPUT_BUFFER_LEN \<and> ich \<noteq> PROTO_CR \<and> ich \<noteq> PROTO_NL
                 then st\<lparr>char_in_buffer := (char_in_buffer st)[cib_len st := ich],
                         cib_len := cib_len st + 1\<rparr>
                 else st)
      in if ich = PROTO_CR then
           (case proto_parse_pkt_buffer disable_crc16 (char_in_buffer st1)
                   (word_of_nat (cib_len st1)) pkt_received of
              None \<Rightarrow> None
            | Some (error_code, pkt_received', tr) \<Rightarrow>
                let st2 = st1\<lparr>char_in_buffer := replicate MAX_INPUT_BUFFER_LEN NUL, cib_len := 0\<rparr>
                in if error_code \<ge> 0 then Some (Some error_code, rest, pkt_received', st2)
                   else
                     (case respond_error pkt_received' error_code st2 of
                        None \<Rightarrow> None
                      | Some st3 \<Rightarrow> proc_input_loop disable_crc16 rest pkt_received' st3))
         else proc_input_loop disable_crc16 rest pkt_received st1)"

text \<open>
  \<^verbatim>\<open>uint8_t proc_input(proto_pkt_t* pkt_received)\<close>. \<open>serial\<close> is the value of \<^verbatim>\<open>Serial\<close>,
  \<open>avail\<close> the bytes the port delivers during the call. The result is the value returned
  (the \<^verbatim>\<open>int16_t\<close> converted to \<^verbatim>\<open>uint8_t\<close>), the bytes left unread, the received packet
  and the state.
\<close>

definition proc_input ::
  "bool \<Rightarrow> bool \<Rightarrow> char list \<Rightarrow> proto_pkt_t \<Rightarrow> app_state \<Rightarrow> (nat \<times> char list \<times> proto_pkt_t \<times> app_state) option" where
  "proc_input serial disable_crc16 avail pkt_received st =
     (if \<not> serial then Some (0, avail, pkt_received, st)
      else
        (case proc_input_loop disable_crc16 avail pkt_received st of
           None \<Rightarrow> None
         | Some (Some error_code, rest, p, st1) \<Rightarrow> Some (nat (error_code mod 256), rest, p, st1)
         | Some (None, rest, p, st1) \<Rightarrow>
             if cib_len st1 \<ge> MAX_INPUT_BUFFER_LEN then
               (case respond_error p ERR_PROTO_CP_CMD_OVERFLOW st1 of
                  None \<Rightarrow> None
                | Some st2 \<Rightarrow>
                    Some (0, rest, p,
                          st2\<lparr>char_in_buffer := replicate MAX_INPUT_BUFFER_LEN NUL, cib_len := 0\<rparr>))
             else Some (0, rest, p, st1)))"

section \<open>Reading a packet\<close>

text \<open>
  The name and the parameters as the program reads them back: as C strings starting at
  \<^verbatim>\<open>pkt->cmd\<close> and at \<^verbatim>\<open>pkt->params[k]\<close>.
\<close>

definition pkt_name :: "proto_pkt_t \<Rightarrow> char list option" where
  "pkt_name p = c_string_at p (cmd_offset 0)"

definition pkt_param :: "proto_pkt_t \<Rightarrow> nat \<Rightarrow> char list option" where
  "pkt_param p k = c_string_at p (param_offset k 0)"

definition pkt_params :: "proto_pkt_t \<Rightarrow> char list option list" where
  "pkt_params p = map (pkt_param p) [0..<unat (param_count p)]"

text \<open>The decoder's return value with the name and the parameters of the packet it leaves.\<close>

definition decode ::
  "bool \<Rightarrow> char list \<Rightarrow> 16 word \<Rightarrow> proto_pkt_t \<Rightarrow> (int \<times> char list option \<times> char list option list) option" where
  "decode disable_crc16 buffer len p =
     map_option (\<lambda>(r, q, tr). (r, pkt_name q, pkt_params q))
       (proto_parse_pkt_buffer disable_crc16 buffer len p)"

text \<open>The accesses of a run that fall outside the array they address.\<close>

fun in_bounds :: "nat \<Rightarrow> access \<Rightarrow> bool" where
  "in_bounds len (CmdStore i) = (i < MAX_PROTO_CMD)"
| "in_bounds len (ParamStore k j) = (k < MAX_PROTO_PARAM_COUNT \<and> j < MAX_PROTO_PARAM_LEN)"
| "in_bounds len (BufRead k) = (k < len)"

definition out_of_bounds :: "bool \<Rightarrow> char list \<Rightarrow> 16 word \<Rightarrow> proto_pkt_t \<Rightarrow> access list option" where
  "out_of_bounds disable_crc16 buffer len p =
     map_option (\<lambda>(r, q, tr). filter (\<lambda>a. \<not> in_bounds (unat len) a) tr)
       (proto_parse_pkt_buffer disable_crc16 buffer len p)"

text \<open>The packet after \<^verbatim>\<open>proto_clear_pkt\<close>.\<close>

definition empty_pkt :: proto_pkt_t where
  "empty_pkt = \<lparr>chars = replicate PKT_CHARS NUL, param_count = 0, crc16_field = 0\<rparr>"

section \<open>Functions for stating what the decoder does\<close>

text \<open>Storing the bytes \<open>bs\<close> one after the other from index \<open>a\<close> on.\<close>

fun store_list :: "nat \<Rightarrow> char list \<Rightarrow> char list \<Rightarrow> char list" where
  "store_list a [] mem = mem"
| "store_list a (b # bs) mem = store_list (Suc a) bs (mem[a := b])"

text \<open>The accesses of a copying loop that copies \<open>k\<close> bytes.\<close>

fun copy_trace :: "(nat \<Rightarrow> access) \<Rightarrow> nat \<Rightarrow> nat \<Rightarrow> nat \<Rightarrow> access list" where
  "copy_trace mk pbi i 0 = []"
| "copy_trace mk pbi i (Suc k) = BufRead pbi # mk i # copy_trace mk (Suc pbi) (Suc i) k"

text \<open>The bytes of the buffer from \<open>pbi\<close> up to \<open>n\<close>.\<close>

definition window :: "char list \<Rightarrow> nat \<Rightarrow> nat \<Rightarrow> char list" where
  "window buffer pbi n = take (n - pbi) (drop pbi buffer)"

text \<open>The number of bytes the scan for STX passes over, starting at \<open>pbi\<close>.\<close>

definition skipped :: "char list \<Rightarrow> nat \<Rightarrow> nat \<Rightarrow> nat" where
  "skipped buffer pbi n = length (takeWhile (\<lambda>c. c \<noteq> PROTO_STX) (window buffer pbi (n - 1)))"

text \<open>The bytes a copying loop takes from \<open>pbi\<close> on when it has room for \<open>cap\<close>.\<close>

definition copied :: "char list \<Rightarrow> nat \<Rightarrow> nat \<Rightarrow> nat \<Rightarrow> char list" where
  "copied buffer pbi n cap =
     take cap (takeWhile (\<lambda>c. c \<noteq> PROTO_PSC \<and> c \<noteq> PROTO_ETX) (window buffer pbi n))"

text \<open>The string \<open>v\<close> stands at index \<open>a\<close> of \<open>mem\<close>, followed by its NUL.\<close>

definition cstr_in :: "char list \<Rightarrow> nat \<Rightarrow> char list \<Rightarrow> bool" where
  "cstr_in mem a v \<longleftrightarrow>
     a + length v < length mem \<and> take (length v) (drop a mem) = v
     \<and> mem ! (a + length v) = NUL \<and> NUL \<notin> set v"

text \<open>The bytes of the parameters on the wire, the frame, and the packet's arrays after the
  decoder has stored the parameters \<open>vs\<close> from slot \<open>k\<close> on.\<close>

definition params_bytes :: "char list list \<Rightarrow> char list" where
  "params_bytes vs = concat (map (\<lambda>v. PROTO_PSC # v) vs)"

fun store_params :: "nat \<Rightarrow> char list list \<Rightarrow> char list \<Rightarrow> char list" where
  "store_params k [] mem = mem"
| "store_params k (v # vs) mem =
     store_params (Suc k) vs ((store_list (param_offset k 0) v mem)[param_offset k (length v) := NUL])"

definition frame :: "char list \<Rightarrow> char list list \<Rightarrow> char list" where
  "frame name vs = PROTO_STX # name @ params_bytes vs @ [PROTO_ETX]"

definition no_delim :: "char list \<Rightarrow> bool" where
  "no_delim v \<longleftrightarrow> PROTO_PSC \<notin> set v \<and> PROTO_ETX \<notin> set v"

section \<open>Properties\<close>

subsection \<open>The loops of the decoder\<close>

lemma window_Cons:
  "pbi < n \<Longrightarrow> pbi < length buffer \<Longrightarrow> window buffer pbi n = buffer ! pbi # window buffer (Suc pbi) n"
  by (simp add: window_def Cons_nth_drop_Suc [symmetric] take_Cons' Suc_diff_Suc)

lemma window_Nil: "n \<le> pbi \<Longrightarrow> window buffer pbi n = []"
  by (simp add: window_def)

lemma skipped_step:
  "buffer ! pbi \<noteq> PROTO_STX \<Longrightarrow> pbi + 1 < n \<Longrightarrow> n \<le> length buffer
   \<Longrightarrow> skipped buffer pbi n = Suc (skipped buffer (Suc pbi) n)"
  by (simp add: skipped_def window_Cons)

lemma skipped_stop:
  "buffer ! pbi = PROTO_STX \<or> n \<le> pbi + 1 \<Longrightarrow> pbi < length buffer \<Longrightarrow> skipped buffer pbi n = 0"
  by (cases "pbi + 1 < n") (auto simp: skipped_def window_Cons window_Nil)

lemma copied_step:
  "pbi < n \<Longrightarrow> pbi < length buffer \<Longrightarrow> 0 < cap
   \<Longrightarrow> buffer ! pbi \<noteq> PROTO_PSC \<Longrightarrow> buffer ! pbi \<noteq> PROTO_ETX
   \<Longrightarrow> copied buffer pbi n cap = buffer ! pbi # copied buffer (Suc pbi) n (cap - 1)"
  by (simp add: copied_def window_Cons take_Cons')

lemma copied_stop:
  "n \<le> pbi \<or> cap = 0 \<or> (pbi < length buffer \<and> (buffer ! pbi = PROTO_PSC \<or> buffer ! pbi = PROTO_ETX))
   \<Longrightarrow> copied buffer pbi n cap = []"
  by (cases "pbi < n") (auto simp: copied_def window_Cons window_Nil)

lemma find_stx_run:
  assumes "n \<le> length buffer" "pbi < n"
  shows "find_stx buffer n pbi si s =
           Some (pbi + skipped buffer pbi n + 1, si + skipped buffer pbi n,
                 s\<lparr>accesses := accesses s @ map BufRead [pbi..<pbi + skipped buffer pbi n + 1]\<rparr>)"
  using assms
proof (induction buffer n pbi si s rule: find_stx.induct)
  case (1 buffer len pbi si s)
  show ?case
  proof (cases "buffer ! pbi \<noteq> PROTO_STX \<and> pbi + 1 < len")
    case True
    then have k: "skipped buffer pbi len = Suc (skipped buffer (Suc pbi) len)"
      using "1.prems" by (intro skipped_step) auto
    have "find_stx buffer len pbi si s
          = find_stx buffer len (pbi + 1) (si + 1) (s\<lparr>accesses := accesses s @ [BufRead pbi]\<rparr>)"
      using True "1.prems" by (subst find_stx.simps) (simp add: rd_def)
    also have "\<dots> = Some (pbi + 1 + skipped buffer (pbi + 1) len + 1, si + 1 + skipped buffer (pbi + 1) len,
                 s\<lparr>accesses := accesses s @ [BufRead pbi]
                      @ map BufRead [pbi + 1..<pbi + 1 + skipped buffer (pbi + 1) len + 1]\<rparr>)"
      using True "1.prems" by (subst "1.IH") (auto simp: rd_def)
    finally show ?thesis
      by (simp add: k upt_rec [of pbi])
  next
    case False
    with "1.prems" have "skipped buffer pbi len = 0"
      by (intro skipped_stop) auto
    with False "1.prems" show ?thesis
      by (subst find_stx.simps) (auto simp: rd_def)
  qed
qed

lemma copy_cmd_run:
  assumes "n \<le> length buffer"
  shows "copy_cmd buffer n pbi i s =
           Some (pbi + length (copied buffer pbi n (MAX_PROTO_CMD - i)),
                 i + length (copied buffer pbi n (MAX_PROTO_CMD - i)),
                 \<lparr>pkt = (pkt s)\<lparr>chars := store_list i (copied buffer pbi n (MAX_PROTO_CMD - i)) (chars (pkt s))\<rparr>,
                  accesses = accesses s
                     @ copy_trace CmdStore pbi i (length (copied buffer pbi n (MAX_PROTO_CMD - i)))
                     @ (if pbi + length (copied buffer pbi n (MAX_PROTO_CMD - i)) < n
                          \<and> i + length (copied buffer pbi n (MAX_PROTO_CMD - i)) < MAX_PROTO_CMD
                        then [BufRead (pbi + length (copied buffer pbi n (MAX_PROTO_CMD - i)))] else [])\<rparr>)"
  using assms
proof (induction buffer n pbi i s rule: copy_cmd.induct)
  case (1 buffer len pbi i s)
  show ?case
  proof (cases "pbi < len \<and> i < MAX_PROTO_CMD")
    case False
    then have "copied buffer pbi len (MAX_PROTO_CMD - i) = []"
      by (intro copied_stop) auto
    with False show ?thesis
      by (subst copy_cmd.simps) auto
  next
    case True
    show ?thesis
    proof (cases "buffer ! pbi \<noteq> PROTO_PSC \<and> buffer ! pbi \<noteq> PROTO_ETX")
      case False
      with True "1.prems" have "copied buffer pbi len (MAX_PROTO_CMD - i) = []"
        by (intro copied_stop) auto
      with False True "1.prems" show ?thesis
        by (subst copy_cmd.simps) (auto simp: rd_def)
    next
      case nd: True
      define s1 where "s1 = s\<lparr>accesses := accesses s @ [BufRead pbi]\<rparr>"
      define s2 where "s2 = \<lparr>pkt = (pkt s)\<lparr>chars := (chars (pkt s))[i := buffer ! pbi]\<rparr>,
                              accesses = accesses s @ [BufRead pbi, CmdStore i]\<rparr>"
      have rd1: "rd buffer pbi s = Some (buffer ! pbi, s1)"
        using True "1.prems" by (simp add: rd_def s1_def)
      have st: "store_cmd i (buffer ! pbi) s1 = Some s2"
        using True by (simp add: store_cmd_def poke_def cmd_offset_def s1_def s2_def)
      have c: "copied buffer pbi len (MAX_PROTO_CMD - i)
               = buffer ! pbi # copied buffer (Suc pbi) len (MAX_PROTO_CMD - (i + 1))"
        using True nd "1.prems" by (subst copied_step) auto
      have "copy_cmd buffer len pbi i s = copy_cmd buffer len (pbi + 1) (i + 1) s2"
        using True nd by (subst copy_cmd.simps) (simp add: rd1 st)
      also note "1.IH" [OF True rd1 refl _ st "1.prems"]
      finally show ?thesis
        using nd by (simp add: c s2_def)
    qed
  qed
qed


lemma copy_param_run:
  assumes "n \<le> length buffer" "unat (param_count (pkt s)) < MAX_PROTO_PARAM_COUNT"
  shows "copy_param buffer n pbi pci s =
           Some (pbi + length (copied buffer pbi n (MAX_PROTO_PARAM_LEN - pci)),
                 pci + length (copied buffer pbi n (MAX_PROTO_PARAM_LEN - pci)),
                 \<lparr>pkt = (pkt s)\<lparr>chars := store_list (param_offset (unat (param_count (pkt s))) pci)
                                            (copied buffer pbi n (MAX_PROTO_PARAM_LEN - pci)) (chars (pkt s))\<rparr>,
                  accesses = accesses s
                     @ copy_trace (ParamStore (unat (param_count (pkt s)))) pbi pci
                         (length (copied buffer pbi n (MAX_PROTO_PARAM_LEN - pci)))
                     @ (if pbi + length (copied buffer pbi n (MAX_PROTO_PARAM_LEN - pci)) < n
                          \<and> pci + length (copied buffer pbi n (MAX_PROTO_PARAM_LEN - pci)) < MAX_PROTO_PARAM_LEN
                        then [BufRead (pbi + length (copied buffer pbi n (MAX_PROTO_PARAM_LEN - pci)))] else [])\<rparr>)"
  using assms
proof (induction buffer n pbi pci s rule: copy_param.induct)
  case (1 buffer len pbi pci s)
  show ?case
  proof (cases "pbi < len \<and> pci < MAX_PROTO_PARAM_LEN")
    case False
    then have "copied buffer pbi len (MAX_PROTO_PARAM_LEN - pci) = []"
      by (intro copied_stop) auto
    with False show ?thesis
      by (subst copy_param.simps) auto
  next
    case True
    show ?thesis
    proof (cases "buffer ! pbi \<noteq> PROTO_PSC \<and> buffer ! pbi \<noteq> PROTO_ETX")
      case False
      with True "1.prems" have "copied buffer pbi len (MAX_PROTO_PARAM_LEN - pci) = []"
        by (intro copied_stop) auto
      with False True "1.prems" show ?thesis
        by (subst copy_param.simps) (auto simp: rd_def)
    next
      case nd: True
      define k where "k = unat (param_count (pkt s))"
      define s1 where "s1 = s\<lparr>accesses := accesses s @ [BufRead pbi]\<rparr>"
      define s2 where "s2 = \<lparr>pkt = (pkt s)\<lparr>chars := (chars (pkt s))[param_offset k pci := buffer ! pbi]\<rparr>,
                              accesses = accesses s @ [BufRead pbi, ParamStore k pci]\<rparr>"
      have rd1: "rd buffer pbi s = Some (buffer ! pbi, s1)"
        using True "1.prems" by (simp add: rd_def s1_def)
      have st: "store_param (unat (param_count (pkt s1))) pci (buffer ! pbi) s1 = Some s2"
        using True "1.prems"
        by (simp add: store_param_def poke_def param_offset_def s1_def s2_def k_def)
      have k2: "unat (param_count (pkt s2)) = k"
        by (simp add: s2_def k_def)
      have off: "param_offset k (Suc pci) = Suc (param_offset k pci)"
        by (simp add: param_offset_def)
      have c: "copied buffer pbi len (MAX_PROTO_PARAM_LEN - pci)
               = buffer ! pbi # copied buffer (Suc pbi) len (MAX_PROTO_PARAM_LEN - (pci + 1))"
        using True nd "1.prems" by (subst copied_step) auto
      have "copy_param buffer len pbi pci s = copy_param buffer len (pbi + 1) (pci + 1) s2"
        using True nd by (subst copy_param.simps) (simp add: rd1 st)
      also have "\<dots> = Some (pbi + 1 + length (copied buffer (pbi + 1) len (MAX_PROTO_PARAM_LEN - (pci + 1))),
                 pci + 1 + length (copied buffer (pbi + 1) len (MAX_PROTO_PARAM_LEN - (pci + 1))),
                 \<lparr>pkt = (pkt s2)\<lparr>chars := store_list (param_offset (unat (param_count (pkt s2))) (pci + 1))
                                            (copied buffer (pbi + 1) len (MAX_PROTO_PARAM_LEN - (pci + 1))) (chars (pkt s2))\<rparr>,
                  accesses = accesses s2
                     @ copy_trace (ParamStore (unat (param_count (pkt s2)))) (pbi + 1) (pci + 1)
                         (length (copied buffer (pbi + 1) len (MAX_PROTO_PARAM_LEN - (pci + 1))))
                     @ (if pbi + 1 + length (copied buffer (pbi + 1) len (MAX_PROTO_PARAM_LEN - (pci + 1))) < len
                          \<and> pci + 1 + length (copied buffer (pbi + 1) len (MAX_PROTO_PARAM_LEN - (pci + 1))) < MAX_PROTO_PARAM_LEN
                        then [BufRead (pbi + 1 + length (copied buffer (pbi + 1) len (MAX_PROTO_PARAM_LEN - (pci + 1))))] else [])\<rparr>)"
        using "1.prems" k2 by (intro "1.IH" [OF True rd1 refl _ st]) (use nd in \<open>auto simp: k_def\<close>)
      finally show ?thesis
        using nd by (simp add: c s2_def k2 off flip: k_def)
    qed
  qed
qed

subsection \<open>C strings inside the arrays\<close>

lemma cstr_in_c_str:
  assumes "cstr_in mem a v"
  shows "NUL \<in> set (drop a mem)" and "c_str (drop a mem) = v"
proof -
  from assms have l: "a + length v < length mem" and t: "take (length v) (drop a mem) = v"
    and z: "mem ! (a + length v) = NUL" and v: "NUL \<notin> set v"
    by (auto simp: cstr_in_def)
  have "drop a mem = take (length v) (drop a mem) @ drop (length v) (drop a mem)"
    by (rule append_take_drop_id [symmetric])
  also have "drop (length v) (drop a mem) = mem ! (a + length v) # drop (Suc (a + length v)) mem"
    using l by (simp add: Cons_nth_drop_Suc add.commute)
  finally have d: "drop a mem = v @ NUL # drop (Suc (a + length v)) mem"
    by (simp add: t z)
  show "NUL \<in> set (drop a mem)"
    by (subst d) simp
  show "c_str (drop a mem) = v"
    using v by (subst d) (auto simp: c_str_def takeWhile_tail)
qed

lemma c_str_cstr_in:
  assumes "NUL \<in> set (drop a mem)"
  shows "cstr_in mem a (c_str (drop a mem))"
proof -
  let ?xs = "drop a mem" and ?P = "\<lambda>c. c \<noteq> NUL"
  have "takeWhile ?P ?xs \<noteq> ?xs"
    using assms by (auto simp: takeWhile_eq_all_conv)
  then have less: "length (takeWhile ?P ?xs) < length ?xs"
    using length_takeWhile_le [of ?P ?xs] takeWhile_eq_take [of ?P ?xs]
    by (cases "length (takeWhile ?P ?xs) = length ?xs") auto
  then have "\<not> ?P (?xs ! length (takeWhile ?P ?xs))"
    by (rule nth_length_takeWhile)
  moreover have "?xs ! length (takeWhile ?P ?xs) = mem ! (a + length (takeWhile ?P ?xs))"
    using less by simp
  moreover have "take (length (takeWhile ?P ?xs)) ?xs = takeWhile ?P ?xs"
    by (rule takeWhile_eq_take [symmetric])
  moreover have "NUL \<notin> set (takeWhile ?P ?xs)"
    by (auto dest: set_takeWhileD)
  ultimately show ?thesis
    using less by (simp add: cstr_in_def c_str_def)
qed

lemma c_string_at_iff: "c_string_at p a = Some v \<longleftrightarrow> cstr_in (chars p) a v"
  by (auto simp: c_string_at_def cstr_in_c_str c_str_cstr_in dest: cstr_in_c_str)

lemma length_store_list [simp]: "length (store_list a bs mem) = length mem"
  by (induction a bs mem rule: store_list.induct) auto

lemma store_list_take_drop:
  "a + length bs \<le> length mem \<Longrightarrow> store_list a bs mem = take a mem @ bs @ drop (a + length bs) mem"
proof (induction a bs mem rule: store_list.induct)
  case (1 a mem)
  then show ?case by simp
next
  case (2 a b bs mem)
  then have "store_list (Suc a) bs (mem[a := b])
             = take (Suc a) (mem[a := b]) @ bs @ drop (Suc a + length bs) (mem[a := b])"
    by simp
  also have "take (Suc a) (mem[a := b]) = take a mem @ [b]"
    using "2.prems" by (simp add: take_Suc_conv_app_nth)
  also have "drop (Suc a + length bs) (mem[a := b]) = drop (Suc a + length bs) mem"
    by simp
  finally show ?case by simp
qed

lemma cstr_in_update_above:
  assumes "cstr_in mem a v" "a + length v < b"
  shows "cstr_in (mem[b := x]) a v"
proof -
  have "drop a (mem[b := x]) = (drop a mem)[b - a := x]"
    using assms by (simp add: drop_update_swap)
  then have "take (length v) (drop a (mem[b := x])) = take (length v) (drop a mem)"
    using assms by simp
  with assms show ?thesis
    by (simp add: cstr_in_def)
qed

lemma cstr_in_store_list_above:
  "cstr_in mem a v \<Longrightarrow> a + length v < b \<Longrightarrow> cstr_in (store_list b w mem) a v"
  by (induction b w mem rule: store_list.induct) (auto intro: cstr_in_update_above)

lemma cstr_in_store:
  assumes "a + length v < length mem" "NUL \<notin> set v"
  shows "cstr_in ((store_list a v mem)[a + length v := NUL]) a v"
proof -
  have s: "store_list a v mem = take a mem @ v @ drop (a + length v) mem"
    using assms by (intro store_list_take_drop) simp
  have "drop a ((store_list a v mem)[a + length v := NUL]) = (drop a (store_list a v mem))[length v := NUL]"
    by (simp add: drop_update_swap)
  then have "take (length v) (drop a ((store_list a v mem)[a + length v := NUL]))
             = take (length v) (drop a (store_list a v mem))"
    by simp
  also have "\<dots> = v"
    using assms by (simp add: s)
  finally show ?thesis
    using assms by (simp add: cstr_in_def)
qed

subsection \<open>Decoding a well-formed frame\<close>

lemma window_drop: "pbi + j \<le> n \<Longrightarrow> window buffer (pbi + j) n = drop j (window buffer pbi n)"
  by (simp add: window_def drop_take add.commute)

lemma window_length: "length (window buffer pbi n) = min (n - pbi) (length buffer - pbi)"
  by (simp add: window_def)

lemma window_eq_ConsD:
  assumes "window buffer pbi n = x # xs"
  shows "pbi < n" "pbi < length buffer" "buffer ! pbi = x" "window buffer (Suc pbi) n = xs"
proof -
  from assms have "length (window buffer pbi n) \<noteq> 0"
    by simp
  then show a: "pbi < n" and b: "pbi < length buffer"
    by (auto simp: window_length)
  from window_Cons [OF a b] assms show "buffer ! pbi = x" "window buffer (Suc pbi) n = xs"
    by auto
qed

lemma window_eq_appendD:
  assumes "window buffer pbi n = xs @ ys"
  shows "window buffer (pbi + length xs) n = ys"
proof (cases xs)
  case Nil
  with assms show ?thesis by simp
next
  case (Cons x xs')
  have "length (window buffer pbi n) = length xs + length ys"
    using assms by simp
  with Cons have "pbi + length xs \<le> n"
    by (auto simp: window_length)
  then have "window buffer (pbi + length xs) n = drop (length xs) (window buffer pbi n)"
    by (rule window_drop)
  with assms show ?thesis
    by simp
qed

lemma copied_field:
  assumes "window buffer pbi n = v @ d # rest" "no_delim v" "d = PROTO_PSC \<or> d = PROTO_ETX"
    and "length v \<le> cap"
  shows "copied buffer pbi n cap = v"
proof -
  have "takeWhile (\<lambda>c. c \<noteq> PROTO_PSC \<and> c \<noteq> PROTO_ETX) (v @ d # rest) = v"
    using assms(2,3) by (auto simp: no_delim_def takeWhile_tail)
  with assms show ?thesis
    by (simp add: copied_def)
qed

lemma unat_param_count_Suc:
  "unat (c :: 8 word) < MAX_PROTO_PARAM_COUNT \<Longrightarrow> unat (c + 1) = Suc (unat c)"
  by (simp add: unat_word_ariths)

lemma parse_params_run:
  assumes "n \<le> length buffer"
    and "window buffer pbi n = params_bytes vs @ PROTO_ETX # rest"
    and "vs \<noteq> []"
    and "\<forall>v \<in> set vs. length v < MAX_PROTO_PARAM_LEN \<and> no_delim v"
    and "unat (param_count (pkt s)) + length vs \<le> MAX_PROTO_PARAM_COUNT"
  shows "\<exists>tr. parse_params buffer n pbi s =
           Some (pbi + length (params_bytes vs),
                 \<lparr>pkt = (pkt s)\<lparr>chars := store_params (unat (param_count (pkt s))) vs (chars (pkt s)),
                                 param_count := param_count (pkt s) + of_nat (length vs)\<rparr>,
                  accesses = tr\<rparr>)"
  using assms
proof (induction vs arbitrary: pbi s)
  case Nil
  then show ?case by simp
next
  case (Cons v vs)
  define c where "c = unat (param_count (pkt s))"
  define tl_bytes where "tl_bytes = params_bytes vs @ PROTO_ETX # rest"
  have v: "length v < MAX_PROTO_PARAM_LEN" "no_delim v" and c: "c < MAX_PROTO_PARAM_COUNT"
    using Cons.prems by (auto simp: c_def)
  have w0: "window buffer pbi n = PROTO_PSC # v @ tl_bytes"
    using Cons.prems(2) by (simp add: params_bytes_def tl_bytes_def)
  then have pbi: "pbi < n" and w1: "window buffer (Suc pbi) n = v @ tl_bytes"
    by (auto dest: window_eq_ConsD)
  obtain d rest' where tl: "tl_bytes = d # rest'" and d: "d = PROTO_PSC \<or> d = PROTO_ETX"
    and d_etx: "d = PROTO_ETX \<longleftrightarrow> vs = []"
    by (cases vs) (auto simp: tl_bytes_def params_bytes_def)
  have cp: "copied buffer (Suc pbi) n (MAX_PROTO_PARAM_LEN - 0) = v"
    using w1 v d by (intro copied_field [where d = d and rest = rest']) (auto simp: tl)
  define pbi1 where "pbi1 = Suc pbi + length v"
  have w2: "window buffer pbi1 n = d # rest'"
    using window_eq_appendD [OF w1] by (simp add: pbi1_def tl)
  then have pbi1: "pbi1 < n" "pbi1 < length buffer" "buffer ! pbi1 = d"
    by (auto dest: window_eq_ConsD)
  obtain tr1 where run1: "copy_param buffer n (Suc pbi) 0 s
      = Some (pbi1, length v, \<lparr>pkt = (pkt s)\<lparr>chars := store_list (param_offset c 0) v (chars (pkt s))\<rparr>,
                               accesses = tr1\<rparr>)"
    using copy_param_run [OF Cons.prems(1), of s "Suc pbi" 0] c cp
    by (simp add: c_def pbi1_def)
  define s1 where "s1 = \<lparr>pkt = (pkt s)\<lparr>chars := store_list (param_offset c 0) v (chars (pkt s))\<rparr>,
                               accesses = tr1\<rparr>"
  define s4 where "s4 = \<lparr>pkt = (pkt s)\<lparr>chars := (store_list (param_offset c 0) v (chars (pkt s)))
                                                   [param_offset c (length v) := NUL],
                                         param_count := param_count (pkt s) + 1\<rparr>,
                          accesses = tr1 @ [ParamStore c (length v), BufRead pbi1]\<rparr>"
  have st: "store_param (unat (param_count (pkt s1))) (length v) NUL s1
            = Some \<lparr>pkt = (pkt s)\<lparr>chars := (store_list (param_offset c 0) v (chars (pkt s)))
                                                   [param_offset c (length v) := NUL]\<rparr>,
                     accesses = tr1 @ [ParamStore c (length v)]\<rparr>"
    using c v by (simp add: store_param_def poke_def param_offset_def s1_def c_def)
  have c4: "unat (param_count (pkt s4)) = Suc c"
    using c by (simp add: s4_def c_def unat_param_count_Suc)
  have step: "parse_params buffer n pbi s
        = (if d \<noteq> PROTO_ETX \<and> Suc c < MAX_PROTO_PARAM_COUNT then parse_params buffer n pbi1 s4
           else Some (pbi1, s4))"
    using pbi1 c4
    by (subst parse_params.simps) (simp add: run1 st rd_def s4_def flip: s1_def)
  show ?case
  proof (cases vs)
    case Nil
    with d_etx step show ?thesis
      by (auto simp: s4_def params_bytes_def pbi1_def c_def)
  next
    case (Cons v' vs')
    with d_etx d have dp: "d \<noteq> PROTO_ETX"
      by auto
    have c2: "Suc c < MAX_PROTO_PARAM_COUNT"
      using Cons.prems(5) Cons by (simp add: c_def)
    have w3: "window buffer pbi1 n = params_bytes vs @ PROTO_ETX # rest"
      using w2 by (simp add: tl [symmetric] tl_bytes_def)
    have "\<exists>tr. parse_params buffer n pbi1 s4 =
           Some (pbi1 + length (params_bytes vs),
                 \<lparr>pkt = (pkt s4)\<lparr>chars := store_params (unat (param_count (pkt s4))) vs (chars (pkt s4)),
                                 param_count := param_count (pkt s4) + of_nat (length vs)\<rparr>,
                  accesses = tr\<rparr>)"
      using Cons.prems c4 Cons
      by (intro Cons.IH [OF Cons.prems(1) w3]) (auto simp: c_def)
    then obtain tr where "parse_params buffer n pbi1 s4 =
           Some (pbi1 + length (params_bytes vs),
                 \<lparr>pkt = (pkt s4)\<lparr>chars := store_params (unat (param_count (pkt s4))) vs (chars (pkt s4)),
                                 param_count := param_count (pkt s4) + of_nat (length vs)\<rparr>,
                  accesses = tr\<rparr>)"
      by blast
    then have "parse_params buffer n pbi s =
           Some (pbi1 + length (params_bytes vs),
                 \<lparr>pkt = (pkt s4)\<lparr>chars := store_params (Suc c) vs (chars (pkt s4)),
                                 param_count := param_count (pkt s4) + of_nat (length vs)\<rparr>,
                  accesses = tr\<rparr>)"
      using dp c2 by (simp add: step c4)
    also have "pbi1 + length (params_bytes vs) = pbi + length (params_bytes (v # vs))"
      by (simp add: pbi1_def params_bytes_def)
    also have "(pkt s4)\<lparr>chars := store_params (Suc c) vs (chars (pkt s4)),
                                 param_count := param_count (pkt s4) + of_nat (length vs)\<rparr>
               = (pkt s)\<lparr>chars := store_params c (v # vs) (chars (pkt s)),
                                 param_count := param_count (pkt s) + of_nat (length (v # vs))\<rparr>"
      by (simp add: s4_def ac_simps)
    finally show ?thesis
      by (auto simp: c_def)
  qed
qed


lemma length_store_params [simp]: "length (store_params k vs mem) = length mem"
  by (induction k vs mem rule: store_params.induct) auto

lemma param_offset_mono: "param_offset k j < param_offset (Suc k) 0 \<longleftrightarrow> j < MAX_PROTO_PARAM_LEN"
  by (auto simp: param_offset_def)

lemma cstr_in_store_params_above:
  "cstr_in mem a v \<Longrightarrow> a + length v < param_offset k 0 \<Longrightarrow> cstr_in (store_params k vs mem) a v"
proof (induction k vs mem rule: store_params.induct)
  case (1 k mem)
  then show ?case by simp
next
  case (2 k w ws mem)
  have "cstr_in ((store_list (param_offset k 0) w mem)[param_offset k (length w) := NUL]) a v"
    using "2.prems"
    by (intro cstr_in_update_above cstr_in_store_list_above) (auto simp: param_offset_def)
  moreover have "a + length v < param_offset (Suc k) 0"
    using "2.prems" by (simp add: param_offset_def)
  ultimately show ?case
    by (simp add: "2.IH")
qed

lemma cstr_in_store_params:
  assumes "j < length vs" "\<forall>v \<in> set vs. length v < MAX_PROTO_PARAM_LEN \<and> NUL \<notin> set v"
    and "k + length vs \<le> MAX_PROTO_PARAM_COUNT" "length mem = PKT_CHARS"
  shows "cstr_in (store_params k vs mem) (param_offset (k + j) 0) (vs ! j)"
  using assms
proof (induction k vs mem arbitrary: j rule: store_params.induct)
  case (1 k mem)
  then show ?case by simp
next
  case (2 k w ws mem)
  define mem' where "mem' = (store_list (param_offset k 0) w mem)[param_offset k (length w) := NUL]"
  have w: "length w < MAX_PROTO_PARAM_LEN" "NUL \<notin> set w" and k: "k < MAX_PROTO_PARAM_COUNT"
    using "2.prems" by auto
  show ?case
  proof (cases j)
    case 0
    have "param_offset k 0 + length w < length mem"
      using w k "2.prems"(4) by (simp add: param_offset_def)
    then have "cstr_in mem' (param_offset k 0) w"
      unfolding mem'_def using w cstr_in_store [of "param_offset k 0" w mem]
      by (simp add: param_offset_def)
    moreover have "param_offset k 0 + length w < param_offset (Suc k) 0"
      using w by (simp add: param_offset_def)
    ultimately show ?thesis
      using 0 by (simp add: cstr_in_store_params_above flip: mem'_def)
  next
    case (Suc j')
    have "cstr_in (store_params (Suc k) ws mem') (param_offset (Suc k + j') 0) (ws ! j')"
      unfolding mem'_def using "2.prems" Suc by (intro "2.IH") auto
    with Suc show ?thesis
      by (simp add: mem'_def)
  qed
qed

lemma to_int16_small: "n < 32768 \<Longrightarrow> to_int16 n = int n"
  by (simp add: to_int16_def)

lemma frame_length: "length (frame name vs) = length name + length (params_bytes vs) + 2"
  by (simp add: frame_def)

lemma skipped_junk:
  assumes "PROTO_STX \<notin> set junk" "buffer = junk @ PROTO_STX # aft" "length junk + 2 \<le> n"
  shows "skipped buffer 0 n = length junk"
proof -
  have "n - 1 - length junk = Suc (n - 1 - Suc (length junk))"
    using assms by simp
  then have "window buffer 0 (n - 1) = junk @ PROTO_STX # take (n - 1 - Suc (length junk)) aft"
    using assms by (simp add: window_def)
  moreover have "takeWhile (\<lambda>c. c \<noteq> PROTO_STX) junk = junk"
    using assms(1) by (induction junk) auto
  ultimately show ?thesis
    by (simp add: skipped_def takeWhile_tail)
qed

lemma decode_frame:
  assumes wf: "pkt_wf p" and cnt: "param_count p = 0"
    and junk: "PROTO_STX \<notin> set junk"
    and name: "no_delim name" "NUL \<notin> set name" "length name < MAX_PROTO_CMD"
    and vs: "length vs \<le> MAX_PROTO_PARAM_COUNT"
        "\<forall>v \<in> set vs. length v < MAX_PROTO_PARAM_LEN \<and> no_delim v \<and> NUL \<notin> set v"
    and buffer: "buffer = junk @ frame name vs @ rest"
    and len: "length junk + length (frame name vs) \<le> unat len" "unat len \<le> length buffer"
        "unat len < 32768"
  shows "decode True buffer len p
         = Some (int (length junk + length (frame name vs)), Some name, map Some vs)"
proof -
  define n where "n = unat len"
  define pb where "pb = params_bytes vs"
  define pbi0 where "pbi0 = Suc (length junk)"
  define pbi1 where "pbi1 = pbi0 + length name"
  define pbi2 where "pbi2 = pbi1 + length pb"
  define p0 where "p0 = p\<lparr>crc16_field := 0\<rparr>"
  define mem1 where "mem1 = (store_list 0 name (chars p))[length name := NUL]"
  define q where "q = p0\<lparr>chars := store_params 0 vs mem1, param_count := of_nat (length vs)\<rparr>"
  have n: "length junk + length name + length pb + 2 \<le> n" "n \<le> length buffer" "n < 32768" "0 < n"
    using len by (auto simp: n_def frame_length pb_def)
  have buf: "buffer = junk @ PROTO_STX # name @ pb @ PROTO_ETX # rest"
    by (simp add: buffer frame_def pb_def)
  define np where "np = name @ pb"
  define tail where "tail = take (n - pbi0 - length np - 1) rest"
  have "drop pbi0 buffer = np @ PROTO_ETX # rest"
    by (simp add: buf pbi0_def np_def)
  moreover have "0 < n - pbi0 - length np"
    using n by (simp add: pbi0_def np_def)
  then have "take (n - pbi0 - length np) (PROTO_ETX # rest) = PROTO_ETX # tail"
    unfolding tail_def by (cases "n - pbi0 - length np") simp_all
  moreover have "length np \<le> n - pbi0"
    using n by (simp add: pbi0_def np_def)
  ultimately have "window buffer pbi0 n = np @ PROTO_ETX # tail"
    by (simp add: window_def)
  then have w0: "window buffer pbi0 n = name @ pb @ PROTO_ETX # tail"
    by (simp add: np_def)
  have w1: "window buffer pbi1 n = pb @ PROTO_ETX # tail"
    using window_eq_appendD [OF w0] by (simp add: pbi1_def)
  have w2: "window buffer pbi2 n = PROTO_ETX # tail"
    using window_eq_appendD [OF w1] by (simp add: pbi2_def)
  obtain d aft where d: "pb @ PROTO_ETX # tail = d # aft" "d = PROTO_PSC \<or> d = PROTO_ETX"
      "d = PROTO_ETX \<longleftrightarrow> vs = []"
    by (cases vs) (auto simp: pb_def params_bytes_def)
  have sk: "skipped buffer 0 n = length junk"
    using junk n by (intro skipped_junk [where aft = "name @ pb @ PROTO_ETX # rest"]) (auto simp: buf)
  obtain tr1 where f: "find_stx buffer n 0 0 \<lparr>pkt = p0, accesses = []\<rparr>
                       = Some (pbi0, length junk, \<lparr>pkt = p0, accesses = tr1\<rparr>)"
    using find_stx_run [OF n(2) n(4), of 0 "\<lparr>pkt = p0, accesses = []\<rparr>"]
    by (simp add: sk pbi0_def)
  have cp: "copied buffer pbi0 n MAX_PROTO_CMD = name"
    using name d by (intro copied_field [where d = d and rest = aft]) (auto simp: w0)
  obtain tr2 where c: "copy_cmd buffer n pbi0 0 \<lparr>pkt = p0, accesses = tr1\<rparr>
        = Some (pbi1, length name, \<lparr>pkt = p0\<lparr>chars := store_list 0 name (chars p)\<rparr>, accesses = tr2\<rparr>)"
    using copy_cmd_run [OF n(2), of pbi0 0 "\<lparr>pkt = p0, accesses = tr1\<rparr>"] cp
    by (simp add: pbi1_def p0_def)
  obtain tr3 where st: "store_cmd (length name) NUL \<lparr>pkt = p0\<lparr>chars := store_list 0 name (chars p)\<rparr>, accesses = tr2\<rparr>
        = Some \<lparr>pkt = p0\<lparr>chars := mem1\<rparr>, accesses = tr3\<rparr>"
    using name by (simp add: store_cmd_def poke_def cmd_offset_def mem1_def)
  have i1: "pbi1 < n" "pbi1 < length buffer" "buffer ! pbi1 = d"
    using w1 by (auto simp: d dest: window_eq_ConsD)
  have i2: "pbi2 < n" "pbi2 < length buffer" "buffer ! pbi2 = PROTO_ETX"
    using w2 by (auto dest: window_eq_ConsD)
  have "\<exists>tr. (if d = PROTO_ETX then Some (pbi1, \<lparr>pkt = p0\<lparr>chars := mem1\<rparr>, accesses = tr3 @ [BufRead pbi1]\<rparr>)
               else parse_params buffer n pbi1 \<lparr>pkt = p0\<lparr>chars := mem1\<rparr>, accesses = tr3 @ [BufRead pbi1]\<rparr>)
             = Some (pbi2, \<lparr>pkt = q, accesses = tr\<rparr>)"
  proof (cases "vs = []")
    case True
    with d show ?thesis
      by (simp add: pbi2_def pb_def params_bytes_def q_def p0_def cnt)
  next
    case False
    have "\<exists>tr. parse_params buffer n pbi1 \<lparr>pkt = p0\<lparr>chars := mem1\<rparr>, accesses = tr3 @ [BufRead pbi1]\<rparr> =
           Some (pbi1 + length (params_bytes vs),
                 \<lparr>pkt = (pkt \<lparr>pkt = p0\<lparr>chars := mem1\<rparr>, accesses = tr3 @ [BufRead pbi1]\<rparr>)
                     \<lparr>chars := store_params (unat (param_count (pkt \<lparr>pkt = p0\<lparr>chars := mem1\<rparr>, accesses = tr3 @ [BufRead pbi1]\<rparr>))) vs
                          (chars (pkt \<lparr>pkt = p0\<lparr>chars := mem1\<rparr>, accesses = tr3 @ [BufRead pbi1]\<rparr>)),
                       param_count := param_count (pkt \<lparr>pkt = p0\<lparr>chars := mem1\<rparr>, accesses = tr3 @ [BufRead pbi1]\<rparr>) + of_nat (length vs)\<rparr>,
                  accesses = tr\<rparr>)"
      using False vs w1 by (intro parse_params_run [OF n(2), where rest = tail]) (auto simp: pb_def p0_def cnt)
    with False d show ?thesis
      by (simp add: pbi2_def pb_def q_def p0_def cnt)
  qed
  then obtain tr4 where pp: "(if d = PROTO_ETX then Some (pbi1, \<lparr>pkt = p0\<lparr>chars := mem1\<rparr>, accesses = tr3 @ [BufRead pbi1]\<rparr>)
               else parse_params buffer n pbi1 \<lparr>pkt = p0\<lparr>chars := mem1\<rparr>, accesses = tr3 @ [BufRead pbi1]\<rparr>)
             = Some (pbi2, \<lparr>pkt = q, accesses = tr4\<rparr>)"
    by blast
  have fin: "parse_finish True buffer n (length junk) pbi2 s = Some (int (Suc pbi2), pkt s, accesses s @ [BufRead pbi2])" for s
    using i2 n by (simp add: parse_finish_def rd_def to_int16_small)
  have body: "parse_body True buffer n (length junk) pbi1 (length name) \<lparr>pkt = p0\<lparr>chars := mem1\<rparr>, accesses = tr3\<rparr>
              = Some (int (Suc pbi2), q, (if d = PROTO_ETX then tr4 @ [BufRead pbi2] else tr4 @ [BufRead pbi2]))"
  proof (cases "d = PROTO_ETX")
    case True
    with pp have "pbi2 = pbi1" "q = p0\<lparr>chars := mem1\<rparr>"
      by auto
    with True i1 name fin show ?thesis
      using pp by (simp add: parse_body_def rd_def)
  next
    case False
    with d have "d = PROTO_PSC" by simp
    with False i1 name fin pp show ?thesis
      by (simp add: parse_body_def rd_def)
  qed
  have p0n: "pbi0 < n"
    using n by (simp add: pbi0_def)
  have run: "proto_parse_pkt_buffer True buffer len p = Some (int (Suc pbi2), q, tr4 @ [BufRead pbi2])"
    using n(4) p0n
    by (simp add: proto_parse_pkt_buffer_def n_def [symmetric] p0_def [symmetric] f c st body)
  have ret: "Suc pbi2 = length junk + length (frame name vs)"
    by (simp add: pbi2_def pbi1_def pbi0_def frame_length pb_def)
  have m1: "length mem1 = PKT_CHARS"
    using wf by (simp add: mem1_def pkt_wf_def)
  have "cstr_in mem1 0 name"
    unfolding mem1_def using name wf cstr_in_store [of 0 name "chars p"]
    by (simp add: pkt_wf_def)
  then have "cstr_in (store_params 0 vs mem1) 0 name"
    using name by (intro cstr_in_store_params_above) (auto simp: param_offset_def)
  then have nm: "pkt_name q = Some name"
    by (simp add: pkt_name_def cmd_offset_def c_string_at_iff q_def)
  have cq: "unat (param_count q) = length vs"
    using vs by (simp add: q_def unat_of_nat)
  have pq: "pkt_param q j = Some (vs ! j)" if "j < length vs" for j
  proof -
    have "cstr_in (store_params 0 vs mem1) (param_offset (0 + j) 0) (vs ! j)"
      using that vs m1 by (intro cstr_in_store_params) auto
    then show ?thesis
      by (simp add: pkt_param_def c_string_at_iff q_def)
  qed
  have ps: "pkt_params q = map Some vs"
  proof (rule nth_equalityI)
    show "length (pkt_params q) = length (map Some vs)"
      by (simp add: pkt_params_def cq)
  next
    fix j
    assume "j < length (pkt_params q)"
    then have "j < length vs"
      by (simp add: pkt_params_def cq)
    then show "pkt_params q ! j = map Some vs ! j"
      by (simp add: pkt_params_def cq pq)
  qed
  show ?thesis
    by (simp add: decode_def run nm ps ret)
qed

subsection \<open>What the parameter loop leaves alone\<close>

lemma take_cmd_update: "MAX_PROTO_CMD \<le> a \<Longrightarrow> take MAX_PROTO_CMD (mem[a := v]) = take MAX_PROTO_CMD mem"
  by simp

lemma store_param_inv:
  assumes "store_param k j v s = Some s'"
  shows "take MAX_PROTO_CMD (chars (pkt s')) = take MAX_PROTO_CMD (chars (pkt s))"
    and "param_count (pkt s') = param_count (pkt s)"
  using assms by (auto simp: store_param_def poke_def param_offset_def split: option.splits if_splits)

lemma rd_inv: "rd buffer k s = Some (c, s') \<Longrightarrow> pkt s' = pkt s \<and> c = buffer ! k \<and> k < length buffer"
  by (auto simp: rd_def split: if_splits)

lemma copy_param_inv:
  "copy_param buffer n pbi pci s = Some (pbi', pci', s')
   \<Longrightarrow> take MAX_PROTO_CMD (chars (pkt s')) = take MAX_PROTO_CMD (chars (pkt s)) \<and> pbi' \<le> max pbi n"
proof (induction buffer n pbi pci s rule: copy_param.induct)
  case (1 buffer len pbi pci s)
  show ?case
  proof (cases "pbi < len \<and> pci < MAX_PROTO_PARAM_LEN")
    case False
    with "1.prems" show ?thesis
      by (simp add: copy_param.simps)
  next
    case True
    from "1.prems" True obtain c s1 where r: "rd buffer pbi s = Some (c, s1)"
      by (subst (asm) copy_param.simps) (auto split: option.splits)
    show ?thesis
    proof (cases "c \<noteq> PROTO_PSC \<and> c \<noteq> PROTO_ETX")
      case False
      with "1.prems" True r show ?thesis
        by (subst (asm) copy_param.simps) (auto dest: rd_inv)
    next
      case nd: True
      from "1.prems" True r nd obtain s2 where
        st: "store_param (unat (param_count (pkt s1))) pci c s1 = Some s2"
        and rec: "copy_param buffer len (pbi + 1) (pci + 1) s2 = Some (pbi', pci', s')"
        by (subst (asm) copy_param.simps) (auto split: option.splits)
      from "1.IH" [OF True r refl _ st rec] nd
      have "take MAX_PROTO_CMD (chars (pkt s')) = take MAX_PROTO_CMD (chars (pkt s2))" "pbi' \<le> max (pbi + 1) len"
        by auto
      with store_param_inv [OF st] rd_inv [OF r] True show ?thesis
        by auto
    qed
  qed
qed

lemma parse_params_inv:
  "parse_params buffer n pbi s = Some (pbi', s') \<Longrightarrow> pbi < n
   \<Longrightarrow> take MAX_PROTO_CMD (chars (pkt s')) = take MAX_PROTO_CMD (chars (pkt s)) \<and> pbi' \<le> n"
proof (induction buffer n pbi s rule: parse_params.induct)
  case (1 buffer len pbi s)
  from "1.prems" obtain pbi1 pci s1 s2 where
    cp: "copy_param buffer len (pbi + 1) 0 s = Some (pbi1, pci, s1)"
    and st: "store_param (unat (param_count (pkt s1))) pci NUL s1 = Some s2"
    by (subst (asm) parse_params.simps) (auto split: option.splits prod.splits)
  define s3 where "s3 = s2\<lparr>pkt := (pkt s2)\<lparr>param_count := param_count (pkt s2) + 1\<rparr>\<rparr>"
  have i1: "take MAX_PROTO_CMD (chars (pkt s3)) = take MAX_PROTO_CMD (chars (pkt s))" "pbi1 \<le> len"
    using copy_param_inv [OF cp] store_param_inv [OF st] "1.prems"(2) by (auto simp: s3_def)
  show ?case
  proof (cases "pbi1 < len")
    case False
    with "1.prems" cp st i1 show ?thesis
      by (subst (asm) parse_params.simps) (auto simp: s3_def Let_def)
  next
    case True
    from "1.prems" cp st True obtain c s4 where r: "rd buffer pbi1 s3 = Some (c, s4)"
      by (subst (asm) parse_params.simps) (auto simp: s3_def Let_def split: option.splits)
    show ?thesis
    proof (cases "c \<noteq> PROTO_ETX \<and> unat (param_count (pkt s4)) < MAX_PROTO_PARAM_COUNT")
      case False
      with "1.prems" cp st True r i1 show ?thesis
        by (subst (asm) parse_params.simps) (auto simp: s3_def Let_def dest: rd_inv)
    next
      case go: True
      from "1.prems" cp st True r go have rec: "parse_params buffer len pbi1 s4 = Some (pbi', s')"
        by (subst (asm) parse_params.simps) (auto simp: s3_def Let_def)
      from "1.IH" [OF cp refl refl st s3_def True r refl _ rec True] go
      have "take MAX_PROTO_CMD (chars (pkt s')) = take MAX_PROTO_CMD (chars (pkt s4))" "pbi' \<le> len"
        by auto
      with rd_inv [OF r] i1 show ?thesis
        by auto
    qed
  qed
qed

subsection \<open>The encoder\<close>

lemma params_bytes_Cons: "params_bytes (v # vs) = PROTO_PSC # v @ params_bytes vs"
  by (simp add: params_bytes_def)

lemma print_params_run:
  assumes "i < unat (param_count p)" "length vs = unat (param_count p)"
    and "\<And>k. k < unat (param_count p) \<Longrightarrow> pkt_param p k = Some (vs ! k)"
  shows "print_params p i (out, crc)
         = Some (out @ params_bytes (drop i vs), foldl crc16 crc (params_bytes (drop i vs)))"
  using assms(1)
proof (induction "unat (param_count p) - i" arbitrary: i out crc)
  case 0
  then show ?case by simp
next
  case (Suc m)
  have v: "c_string_at p (param_offset i 0) = Some (vs ! i)"
    using Suc.prems assms(3) by (simp add: pkt_param_def [symmetric])
  have d: "drop i vs = vs ! i # drop (Suc i) vs"
    using Suc.prems assms(2) by (simp add: Cons_nth_drop_Suc)
  show ?case
  proof (cases "i + 1 < unat (param_count p)")
    case True
    have "print_params p i (out, crc)
          = print_params p (i + 1) (out @ [PROTO_PSC] @ vs ! i, foldl crc16 (crc16 crc PROTO_PSC) (vs ! i))"
      using True by (subst print_params.simps) (simp add: v)
    also have "\<dots> = Some ((out @ [PROTO_PSC] @ vs ! i) @ params_bytes (drop (i + 1) vs),
                         foldl crc16 (foldl crc16 (crc16 crc PROTO_PSC) (vs ! i)) (params_bytes (drop (i + 1) vs)))"
      using True Suc.hyps(2) by (intro Suc.hyps(1)) auto
    finally show ?thesis
      by (simp add: d params_bytes_Cons)
  next
    case False
    with Suc.prems assms(2) have "drop (Suc i) vs = []"
      by simp
    with False show ?thesis
      by (subst print_params.simps) (simp add: v d params_bytes_Cons params_bytes_def)
  qed
qed

lemma print_response_run:
  assumes "pkt_name p = Some name" "length vs = unat (param_count p)"
    and "\<And>k. k < unat (param_count p) \<Longrightarrow> pkt_param p k = Some (vs ! k)"
  shows "proto_print_response_pkt p
         = Some (frame name vs @ print_hex (unat (foldl crc16 0 (frame name vs))) @ [PROTO_CR],
                 p\<lparr>crc16_field := foldl crc16 0 (frame name vs)\<rparr>)"
proof (cases "0 < unat (param_count p)")
  case True
  have "print_params p 0 ([PROTO_STX] @ name, foldl crc16 (crc16 0 PROTO_STX) name)
        = Some (([PROTO_STX] @ name) @ params_bytes (drop 0 vs),
                foldl crc16 (foldl crc16 (crc16 0 PROTO_STX) name) (params_bytes (drop 0 vs)))"
    using True assms(2,3) by (intro print_params_run) auto
  with True assms(1) show ?thesis
    by (simp add: proto_print_response_pkt_def pkt_name_def frame_def Let_def)
next
  case False
  with assms(2) have "vs = []" by simp
  with False assms(1) show ?thesis
    by (simp add: proto_print_response_pkt_def pkt_name_def frame_def params_bytes_def Let_def)
qed

subsection \<open>Running the decoder on a given input\<close>

lemmas run_simps = proto_parse_pkt_buffer_def find_stx_run copy_cmd_run copy_param_run
  parse_body_def parse_finish_def rd_def store_cmd_def store_param_def poke_def
  cmd_offset_def param_offset_def skipped_def copied_def window_def to_int16_def

lemma wf_empty: "pkt_wf empty_pkt" "param_count empty_pkt = 0" "length (chars empty_pkt) = PKT_CHARS"
  by (simp_all add: pkt_wf_def empty_pkt_def)

lemma decoded_view:
  assumes "length mem = PKT_CHARS" "NUL \<notin> set name" "length name < MAX_PROTO_CMD"
    and "length vs \<le> MAX_PROTO_PARAM_COUNT" "\<forall>v \<in> set vs. length v < MAX_PROTO_PARAM_LEN \<and> NUL \<notin> set v"
    and "chars q = store_params 0 vs ((store_list 0 name mem)[length name := NUL])"
    and "unat (param_count q) = length vs"
  shows "pkt_name q = Some name" "pkt_params q = map Some vs"
proof -
  define mem1 where "mem1 = (store_list 0 name mem)[length name := NUL]"
  have m1: "length mem1 = PKT_CHARS"
    using assms(1) by (simp add: mem1_def)
  have "cstr_in mem1 0 name"
    unfolding mem1_def using assms(1-3) cstr_in_store [of 0 name mem]
    by simp
  then have "cstr_in (store_params 0 vs mem1) 0 name"
    using assms(3) by (intro cstr_in_store_params_above) (auto simp: param_offset_def)
  then show "pkt_name q = Some name"
    by (simp add: pkt_name_def cmd_offset_def c_string_at_iff assms(6) mem1_def)
  have pq: "pkt_param q j = Some (vs ! j)" if "j < length vs" for j
  proof -
    have "cstr_in (store_params 0 vs mem1) (param_offset (0 + j) 0) (vs ! j)"
      using that assms(4,5) m1 by (intro cstr_in_store_params) auto
    then show ?thesis
      by (simp add: pkt_param_def c_string_at_iff assms(6) mem1_def)
  qed
  show "pkt_params q = map Some vs"
  proof (rule nth_equalityI)
    show "length (pkt_params q) = length (map Some vs)"
      by (simp add: pkt_params_def assms(7))
  next
    fix j
    assume "j < length (pkt_params q)"
    then have "j < length vs"
      by (simp add: pkt_params_def assms(7))
    then show "pkt_params q ! j = map Some vs ! j"
      by (simp add: pkt_params_def assms(7) pq)
  qed
qed

lemma c8run: "\<exists>tr. proto_parse_pkt_buffer True (''[CSB:FF'' @ replicate 249 NUL) 7 empty_pkt
   = Some (7, empty_pkt\<lparr>crc16_field := 0,
                        chars := store_params 0 [''FF''] ((store_list 0 ''CSB'' (chars empty_pkt))[length ''CSB'' := NUL]),
                        param_count := 1\<rparr>, tr) \<and> BufRead 7 \<in> set tr"
  by (simp add: run_simps parse_params.simps wf_empty)

subsection \<open>The claims\<close>

lemma clear_chars:
  "replicate MAX_PROTO_CMD NUL
     @ concat (replicate MAX_PROTO_PARAM_COUNT (replicate MAX_PROTO_PARAM_LEN NUL))
   = replicate PKT_CHARS NUL"
  by code_simp

lemma proto_clear_pkt_empty: "proto_clear_pkt (p :: proto_pkt_t) = empty_pkt"
  by (cases p) (simp add: proto_clear_pkt_def empty_pkt_def clear_chars)

text \<open>
  C2. With checksums disabled, decoding \<^verbatim>\<open>"[CSB:FF]\r"\<close> into a cleared packet succeeds
  with name \<^verbatim>\<open>CSB\<close> and the single parameter \<^verbatim>\<open>FF\<close> (the frame is nine bytes long; the
  result is the same when the length passed is ten and a further byte follows);
  decoding \<^verbatim>\<open>"[CSE]\r"\<close> succeeds with name \<^verbatim>\<open>CSE\<close> and no parameter; decoding the four bytes
  \<^verbatim>\<open>"[CPV"\<close> returns the error of a frame that ends before its terminator,
  \<^verbatim>\<open>ERR_PROTO_CP_MISSING_EFC\<close>.
\<close>

theorem decode_scenarios:
  "decode True (''[CSB:FF]'' @ [PROTO_CR]) 9 (proto_clear_pkt p) = Some (8, Some ''CSB'', [Some ''FF''])
   \<and> decode True (''[CSB:FF]'' @ [PROTO_CR, NUL]) 10 (proto_clear_pkt p) = Some (8, Some ''CSB'', [Some ''FF''])
   \<and> decode True (''[CSE]'' @ [PROTO_CR]) 6 (proto_clear_pkt p) = Some (5, Some ''CSE'', [])
   \<and> decode True ''[CPV'' 4 (proto_clear_pkt p) = Some (ERR_PROTO_CP_MISSING_EFC, Some ''CPV'', [])"
proof -
  have wf: "pkt_wf empty_pkt" and cnt: "param_count empty_pkt = 0"
    by (simp_all add: pkt_wf_def empty_pkt_def)
  have "decode True (''[CSB:FF]'' @ [PROTO_CR]) 9 empty_pkt = Some (8, Some ''CSB'', [Some ''FF''])"
    using decode_frame [OF wf cnt, of "[]" "''CSB''" "[''FF'']" "''[CSB:FF]'' @ [PROTO_CR]" "[PROTO_CR]" 9]
    by (simp add: frame_def params_bytes_def no_delim_def)
  moreover
  have "decode True (''[CSB:FF]'' @ [PROTO_CR, NUL]) 10 empty_pkt = Some (8, Some ''CSB'', [Some ''FF''])"
    using decode_frame [OF wf cnt, of "[]" "''CSB''" "[''FF'']" "''[CSB:FF]'' @ [PROTO_CR, NUL]" "[PROTO_CR, NUL]" 10]
    by (simp add: frame_def params_bytes_def no_delim_def)
  moreover
  have "decode True (''[CSE]'' @ [PROTO_CR]) 6 empty_pkt = Some (5, Some ''CSE'', [])"
    using decode_frame [OF wf cnt, of "[]" "''CSE''" "[]" "''[CSE]'' @ [PROTO_CR]" "[PROTO_CR]" 6]
    by (simp add: frame_def params_bytes_def no_delim_def)
  moreover
  have "decode True ''[CPV'' 4 empty_pkt = Some (ERR_PROTO_CP_MISSING_EFC, Some ''CPV'', [])"
    by code_simp
  ultimately show ?thesis
    by (simp add: proto_clear_pkt_empty)
qed

text \<open>
  C3. A buffer whose only STX is its last byte contains the start marker, and the decoder
  still returns \<^verbatim>\<open>ERR_PROTO_CP_MISSING_STX\<close>: the scan leaves \<open>pbi = len\<close> there, which the
  test after it takes for "not found".
\<close>

theorem stx_in_last_byte_reported_missing:
  "PROTO_STX \<in> set ''[''
   \<and> decode disable_crc16 ''['' 1 empty_pkt = Some (ERR_PROTO_CP_MISSING_STX, Some [], [])
   \<and> PROTO_STX \<in> set ''ab[''
   \<and> decode disable_crc16 ''ab['' 3 empty_pkt = Some (ERR_PROTO_CP_MISSING_STX, Some [], [])"
  by code_simp

text \<open>
  C8. The input ends while a parameter is being copied: the seven bytes \<^verbatim>\<open>"[CSB:FF"\<close> in the
  zeroed 256-byte input buffer of main.cpp. The decoder returns 7, a success, with the
  parameter \<^verbatim>\<open>FF\<close>; no terminator error is returned.
\<close>

theorem unterminated_parameter_accepted:
  "decode True (''[CSB:FF'' @ replicate 249 NUL) 7 empty_pkt = Some (7, Some ''CSB'', [Some ''FF''])"
proof -
  from c8run obtain tr where "proto_parse_pkt_buffer True (''[CSB:FF'' @ replicate 249 NUL) 7 empty_pkt
   = Some (7, empty_pkt\<lparr>crc16_field := 0,
                        chars := store_params 0 [''FF''] ((store_list 0 ''CSB'' (chars empty_pkt))[length ''CSB'' := NUL]),
                        param_count := 1\<rparr>, tr)"
    by blast
  moreover have "pkt_name (empty_pkt\<lparr>crc16_field := 0,
                        chars := store_params 0 [''FF''] ((store_list 0 ''CSB'' (chars empty_pkt))[length ''CSB'' := NUL]),
                        param_count := 1\<rparr>) = Some ''CSB''"
    by (rule decoded_view(1) [where vs = "[''FF'']" and mem = "chars empty_pkt"]) (simp_all add: wf_empty)
  moreover have "pkt_params (empty_pkt\<lparr>crc16_field := 0,
                        chars := store_params 0 [''FF''] ((store_list 0 ''CSB'' (chars empty_pkt))[length ''CSB'' := NUL]),
                        param_count := 1\<rparr>) = map Some [''FF'']"
    by (rule decoded_view(2) [where name = "''CSB''" and mem = "chars empty_pkt"]) (simp_all add: wf_empty)
  ultimately show ?thesis
    by (simp add: decode_def)
qed

text \<open>
  C10. Three runs that leave the arrays. A name of ten bytes puts the terminating NUL at
  \<^verbatim>\<open>cmd[10]\<close>; a parameter of fifty bytes puts it at \<^verbatim>\<open>params[0][50]\<close>; input that ends inside
  a parameter makes the decoder read \<^verbatim>\<open>buffer[len]\<close>.
\<close>

theorem decoder_accesses_out_of_bounds:
  "(\<exists>oob. out_of_bounds True ''[ABCDEFGHIJ]'' 12 empty_pkt = Some oob \<and> CmdStore 10 \<in> set oob)
   \<and> (\<exists>oob. out_of_bounds True (''[A:'' @ replicate 50 (CHR ''d'') @ '']'') 54 empty_pkt = Some oob
              \<and> ParamStore 0 50 \<in> set oob)
   \<and> (\<exists>oob. out_of_bounds True (''[CSB:FF'' @ replicate 249 NUL) 7 empty_pkt = Some oob
              \<and> BufRead 7 \<in> set oob)"
proof (intro conjI)
  show "\<exists>oob. out_of_bounds True ''[ABCDEFGHIJ]'' 12 empty_pkt = Some oob \<and> CmdStore 10 \<in> set oob"
    by (simp add: out_of_bounds_def run_simps wf_empty)
  show "\<exists>oob. out_of_bounds True (''[A:'' @ replicate 50 (CHR ''d'') @ '']'') 54 empty_pkt = Some oob
              \<and> ParamStore 0 50 \<in> set oob"
    by (simp add: out_of_bounds_def run_simps parse_params.simps wf_empty takeWhile_tail Let_def nth_append)
  show "\<exists>oob. out_of_bounds True (''[CSB:FF'' @ replicate 249 NUL) 7 empty_pkt = Some oob
              \<and> BufRead 7 \<in> set oob"
    by (simp add: out_of_bounds_def run_simps parse_params.simps wf_empty)
qed

end
